theory Spec2Isabelle
  imports Main "HOL-Library.Sublist"
begin

section \<open>The DPLL engine (dpll.py)\<close>

text \<open>
  A literal is a Python int, a clause of the DPLL engine a Python list of literals, a
  formula a list of clauses and an assignment a list of literals. Python's \<open>None\<close>
  results are \<open>None\<close> of an option type.
\<close>

text \<open>
  \<open>simplify(clauses, current_assignment)\<close>: a clause with a literal of the assignment is
  skipped, every other clause loses the literals whose negation is assigned, and the first
  clause emptied that way makes the whole call return \<open>None\<close>.
\<close>

fun simplify :: "int list list \<Rightarrow> int list \<Rightarrow> int list list option" where
  "simplify [] current_assignment = Some []"
| "simplify (clause # clauses) current_assignment =
     (if \<exists>literal \<in> set clause. literal \<in> set current_assignment
      then simplify clauses current_assignment
      else let new_clause = filter (\<lambda>literal. - literal \<notin> set current_assignment) clause
           in if new_clause = [] then None
              else map_option ((#) new_clause) (simplify clauses current_assignment))"

text \<open>\<open>find_unit_clause\<close>: the only literal of the first clause of length one.\<close>

fun find_unit_clause :: "int list list \<Rightarrow> int option" where
  "find_unit_clause [] = None"
| "find_unit_clause (clause # clauses) =
     (if length clause = 1 then Some (hd clause) else find_unit_clause clauses)"

text \<open>
  \<open>find_pure_literals\<close> counts the occurrences of every literal in a dict, whose keys
  Python keeps in insertion order: an association list. \<open>counter_add\<close> is the statement
  \<open>counter[literal] = counter.get(literal, 0) + 1\<close>.
\<close>

fun counter_add :: "(int \<times> nat) list \<Rightarrow> int \<Rightarrow> (int \<times> nat) list" where
  "counter_add [] literal = [(literal, 1)]"
| "counter_add ((k, n) # counter) literal =
     (if k = literal then (k, n + 1) # counter else (k, n) # counter_add counter literal)"

definition count_literals :: "int list list \<Rightarrow> (int \<times> nat) list" where
  "count_literals clauses = foldl counter_add [] (concat clauses)"

definition find_pure_literals :: "int list list \<Rightarrow> int list" where
  "find_pure_literals clauses =
     (let counter = map fst (count_literals clauses)
      in filter (\<lambda>lit. - lit \<notin> set counter) counter)"

text \<open>\<open>choose_literal\<close>: the absolute value of the first literal of the first non-empty clause.\<close>

fun choose_literal :: "int list list \<Rightarrow> int option" where
  "choose_literal [] = None"
| "choose_literal ([] # clauses) = choose_literal clauses"
| "choose_literal ((lit # clause) # clauses) = Some \<bar>lit\<bar>"

definition literals_of :: "int list list \<Rightarrow> int set" where
  "literals_of clauses = \<Union> (set ` set clauses)"

subsection \<open>Facts about the helpers\<close>

lemma literals_of_simps [simp]:
  "literals_of [] = {}"
  "literals_of (c # cs) = set c \<union> literals_of cs"
  by (simp_all add: literals_of_def)

lemma simplify_no_empty: "simplify clauses a = Some cs \<Longrightarrow> [] \<notin> set cs"
  by (induction clauses arbitrary: cs) (auto simp: Let_def split: if_splits)

lemma simplify_literals:
  "simplify clauses a = Some cs \<Longrightarrow> l \<in> literals_of cs \<Longrightarrow>
     l \<in> literals_of clauses \<and> l \<notin> set a \<and> - l \<notin> set a"
proof (induction clauses arbitrary: cs)
  case Nil
  then show ?case by simp
next
  case (Cons c clauses)
  show ?case
  proof (cases "\<exists>literal \<in> set c. literal \<in> set a")
    case True
    with Cons show ?thesis by auto
  next
    case False
    with Cons.prems(1) obtain cs' where
      cs': "simplify clauses a = Some cs'" and
      cs: "cs = filter (\<lambda>literal. - literal \<notin> set a) c # cs'"
      by (auto simp: Let_def split: if_splits)
    from Cons.prems(2) cs have
      "l \<in> set (filter (\<lambda>literal. - literal \<notin> set a) c) \<or> l \<in> literals_of cs'"
      by simp
    then show ?thesis
    proof
      assume "l \<in> set (filter (\<lambda>literal. - literal \<notin> set a) c)"
      with False show ?thesis by auto
    next
      assume "l \<in> literals_of cs'"
      with Cons.IH [OF cs'] show ?thesis by simp
    qed
  qed
qed

lemma simplify_untouched:
  "[] \<notin> set clauses \<Longrightarrow> \<forall>l \<in> literals_of clauses. - l \<notin> set a \<Longrightarrow>
   simplify clauses a = Some (filter (\<lambda>c. \<not> (\<exists>l \<in> set c. l \<in> set a)) clauses)"
proof (induction clauses)
  case Nil
  then show ?case by simp
next
  case (Cons c clauses)
  have keep: "filter (\<lambda>literal. - literal \<notin> set a) c = c"
    using Cons.prems(2) by (auto simp: filter_id_conv)
  have "c \<noteq> []" using Cons.prems(1) by auto
  moreover have "simplify clauses a =
      Some (filter (\<lambda>c. \<not> (\<exists>l \<in> set c. l \<in> set a)) clauses)"
    using Cons by auto
  ultimately show ?case by (simp add: keep Let_def)
qed

lemma counter_add_keys: "fst ` set (counter_add counter l) = insert l (fst ` set counter)"
  by (induction counter l rule: counter_add.induct) auto

lemma foldl_counter_add_keys:
  "fst ` set (foldl counter_add counter ls) = fst ` set counter \<union> set ls"
  by (induction ls arbitrary: counter) (simp_all add: counter_add_keys)

lemma count_literals_keys: "fst ` set (count_literals clauses) = literals_of clauses"
  by (simp add: count_literals_def foldl_counter_add_keys literals_of_def)

lemma find_pure_literals_iff:
  "l \<in> set (find_pure_literals clauses) \<longleftrightarrow> l \<in> literals_of clauses \<and> - l \<notin> literals_of clauses"
  by (auto simp: find_pure_literals_def Let_def count_literals_keys)

lemma simplify_length: "simplify clauses a = Some cs \<Longrightarrow> length cs \<le> length clauses"
proof (induction clauses arbitrary: cs)
  case Nil
  then show ?case by simp
next
  case (Cons c clauses)
  then show ?case
    by (fastforce simp: Let_def split: if_splits)
qed

lemma find_unit_clause_mem: "find_unit_clause clauses = Some u \<Longrightarrow> [u] \<in> set clauses"
proof (induction clauses)
  case Nil
  then show ?case by simp
next
  case (Cons c clauses)
  show ?case
  proof (cases "length c = 1")
    case True
    then obtain x where "c = [x]" by (cases c) auto
    with Cons.prems show ?thesis by simp
  next
    case False
    with Cons show ?thesis by simp
  qed
qed

lemma simplify_drops_satisfied:
  "simplify clauses a = Some cs \<Longrightarrow> c \<in> set clauses \<Longrightarrow> \<exists>l \<in> set c. l \<in> set a \<Longrightarrow>
   length cs < length clauses"
proof (induction clauses arbitrary: cs)
  case Nil
  then show ?case by simp
next
  case (Cons d clauses)
  show ?case
  proof (cases "\<exists>literal \<in> set d. literal \<in> set a")
    case True
    with Cons.prems(1) have "simplify clauses a = Some cs" by simp
    from simplify_length [OF this] show ?thesis by simp
  next
    case False
    with Cons.prems(2,3) have mem: "c \<in> set clauses" by auto
    from False Cons.prems(1) obtain cs' where
      cs': "simplify clauses a = Some cs'" and cs: "cs = filter (\<lambda>literal. - literal \<notin> set a) d # cs'"
      by (auto simp: Let_def split: if_splits)
    from Cons.IH [OF cs' mem Cons.prems(3)] cs show ?thesis by simp
  qed
qed

subsection \<open>The unit-propagation loop and the decision procedure\<close>

text \<open>
  The \<open>while unit_literal is not None\<close> loop of \<open>dpll\<close>. The list
  \<open>current_assignment\<close> is the caller's own list object, which
  \<open>current_assignment.append(unit_literal)\<close> changes in place: the loop returns its
  content along with the clauses (\<open>None\<close> when \<open>simplify\<close> found a conflict). The
  third component records every content the list has had, for statements about all
  assignments of a run.
\<close>

function unit_propagate ::
  "int list list \<Rightarrow> int list \<Rightarrow> int list list \<Rightarrow> int list list option \<times> int list \<times> int list list"
where
  "unit_propagate clauses current_assignment constructed =
     (case find_unit_clause clauses of
        None \<Rightarrow> (Some clauses, current_assignment, constructed)
      | Some unit_literal \<Rightarrow>
          (let current_assignment' = current_assignment @ [unit_literal] in
           case simplify clauses [unit_literal] of
             None \<Rightarrow> (None, current_assignment', constructed @ [current_assignment'])
           | Some clauses' \<Rightarrow>
               unit_propagate clauses' current_assignment' (constructed @ [current_assignment'])))"
  by pat_completeness auto
termination
proof (relation "measure (\<lambda>(clauses, current_assignment, constructed). length clauses)")
  show "wf (measure (\<lambda>(clauses, current_assignment, constructed). length clauses))"
    by simp
next
  fix clauses :: "int list list" and current_assignment :: "int list"
    and constructed :: "int list list" and x2 x x2a
  assume u: "find_unit_clause clauses = Some x2" and s: "simplify clauses [x2] = Some x2a"
  have "[x2] \<in> set clauses" using u by (rule find_unit_clause_mem)
  with s have "length x2a < length clauses"
    by (rule simplify_drops_satisfied) simp
  then show "((x2a, x, constructed @ [x]), clauses, current_assignment, constructed)
      \<in> measure (\<lambda>(clauses, current_assignment, constructed). length clauses)"
    by simp
qed

declare unit_propagate.simps [simp del]

text \<open>
  What a call of \<open>dpll\<close> leaves behind: the pair it returns (\<open>sat\<close>, \<open>result\<close>), the
  content of the assignment list the caller passed when the call returns
  (\<open>assignment_after\<close>: the list is appended to in place), and \<open>constructed\<close>, every
  assignment list content the call and its recursive calls built, in order.
\<close>

record dpll_outcome =
  sat :: bool
  result :: "int list option"
  assignment_after :: "int list"
  constructed :: "int list list"

text \<open>
  The contents of a list while \<open>for literal in literals: current_assignment.append(literal)\<close>
  runs, one per iteration.
\<close>

definition appends :: "int list \<Rightarrow> int list \<Rightarrow> int list list" where
  "appends current_assignment literals =
     map (\<lambda>k. current_assignment @ take k literals) [1..<Suc (length literals)]"

lemma finite_literals_of [simp]: "finite (literals_of clauses)"
  by (simp add: literals_of_def)

lemma simplify_literals_subset:
  "simplify clauses a = Some cs \<Longrightarrow> literals_of cs \<subseteq> literals_of clauses"
  using simplify_literals by blast

lemma unit_propagate_done:
  "find_unit_clause clauses = None \<Longrightarrow> unit_propagate clauses a tr = (Some clauses, a, tr)"
  by (simp add: unit_propagate.simps)

lemma unit_propagate_conflict:
  "find_unit_clause clauses = Some u \<Longrightarrow> simplify clauses [u] = None \<Longrightarrow>
   unit_propagate clauses a tr = (None, a @ [u], tr @ [a @ [u]])"
  by (simp add: unit_propagate.simps Let_def)

lemma unit_propagate_step:
  "find_unit_clause clauses = Some u \<Longrightarrow> simplify clauses [u] = Some clauses' \<Longrightarrow>
   unit_propagate clauses a tr = unit_propagate clauses' (a @ [u]) (tr @ [a @ [u]])"
  by (simp add: unit_propagate.simps Let_def)

lemma unit_propagate_literals:
  "unit_propagate clauses a tr = (Some cs, a', tr') \<Longrightarrow> literals_of cs \<subseteq> literals_of clauses"
proof (induction clauses a tr rule: unit_propagate.induct)
  case (1 clauses current_assignment constructed)
  show ?case
  proof (cases "find_unit_clause clauses")
    case None
    with "1.prems" show ?thesis by (simp add: unit_propagate_done)
  next
    case (Some u)
    note u = this
    show ?thesis
    proof (cases "simplify clauses [u]")
      case None
      with u "1.prems" show ?thesis by (simp add: unit_propagate_conflict)
    next
      case (Some clauses')
      with u "1.prems"
      have "unit_propagate clauses' (current_assignment @ [u])
              (constructed @ [current_assignment @ [u]]) = (Some cs, a', tr')"
        by (simp add: unit_propagate_step)
      with "1.IH" [OF u refl Some]
      have "literals_of cs \<subseteq> literals_of clauses'" by simp
      with simplify_literals_subset [OF Some] show ?thesis by blast
    qed
  qed
qed

lemma choose_literal_mem: "choose_literal clauses = Some v \<Longrightarrow> \<exists>l \<in> literals_of clauses. v = \<bar>l\<bar>"
  by (induction clauses rule: choose_literal.induct) auto

text \<open>
  The number of variables left after the entry simplification: the measure that decreases
  at each recursive call of \<open>dpll\<close>.
\<close>

definition dpll_measure :: "int list list \<times> int list \<Rightarrow> nat" where
  "dpll_measure = (\<lambda>(clauses, current_assignment).
     case simplify clauses current_assignment of
       None \<Rightarrow> 0
     | Some cs \<Rightarrow> card (abs ` literals_of cs))"

lemma dpll_measure_decreases:
  assumes s1: "simplify clauses a = Some cs1"
    and up: "unit_propagate cs1 a tr = (Some cs2, a2, tr2)"
    and s3: "simplify cs2 p = Some cs3"
    and ch: "choose_literal cs3 = Some v"
    and val: "val = v \<or> val = - v"
  shows "dpll_measure (cs3, a3 @ [val]) < dpll_measure (clauses, a)"
proof -
  from ch obtain l0 where l0: "l0 \<in> literals_of cs3" "v = \<bar>l0\<bar>"
    using choose_literal_mem by blast
  have sub: "literals_of cs3 \<subseteq> literals_of cs1"
    using simplify_literals_subset [OF s3] unit_propagate_literals [OF up] by blast
  have vin: "v \<in> abs ` literals_of cs3" using l0 by blast
  have le: "card (abs ` literals_of cs3) \<le> card (abs ` literals_of cs1)"
    by (rule card_mono) (use sub in auto)
  have pos: "0 < card (abs ` literals_of cs3)"
    using vin by (auto simp: card_gt_0_iff)
  show ?thesis
  proof (cases "simplify cs3 (a3 @ [val])")
    case None
    with s1 pos le show ?thesis by (simp add: dpll_measure_def)
  next
    case (Some cs)
    have "abs ` literals_of cs \<subseteq> abs ` literals_of cs3 - {v}"
    proof
      fix x assume "x \<in> abs ` literals_of cs"
      then obtain l where l: "l \<in> literals_of cs" "x = \<bar>l\<bar>" by blast
      from simplify_literals [OF Some l(1)]
      have "l \<in> literals_of cs3" "l \<noteq> val" "- l \<noteq> val" by auto
      with val l0(2) l(2) show "x \<in> abs ` literals_of cs3 - {v}" by auto
    qed
    then have "card (abs ` literals_of cs) \<le> card (abs ` literals_of cs3 - {v})"
      by (intro card_mono) auto
    also have "\<dots> < card (abs ` literals_of cs3)"
      using vin by (intro card_Diff1_less) auto
    finally show ?thesis using s1 Some le by (simp add: dpll_measure_def)
  qed
qed

lemma dpll_measure_branch:
  assumes "simplify clauses a = Some cs1"
    and "(Some cs2, a2, tr2) = unit_propagate cs1 a tr"
    and "simplify cs2 p = Some cs3"
    and "choose_literal cs3 = Some v"
  shows "dpll_measure (cs3, a3 @ ps @ [v]) < dpll_measure (clauses, a)"
    and "dpll_measure (cs3, a3 @ ps @ [- v]) < dpll_measure (clauses, a)"
  using dpll_measure_decreases [OF assms(1) assms(2) [symmetric] assms(3,4), of _ "a3 @ ps"]
  by simp_all

text \<open>
  \<open>dpll(clauses, current_assignment)\<close>. The recursive calls get the new list
  \<open>current_assignment + [value]\<close> and a copy of the clauses; the second call is only made
  when the first one did not return SAT.
\<close>

function dpll_run :: "int list list \<Rightarrow> int list \<Rightarrow> dpll_outcome" where
  "dpll_run clauses current_assignment =
     (case simplify clauses current_assignment of
        None \<Rightarrow>
          \<lparr>sat = False, result = None,
           assignment_after = current_assignment, constructed = []\<rparr>
      | Some clauses1 \<Rightarrow>
          if clauses1 = []
          then \<lparr>sat = True, result = Some current_assignment,
                 assignment_after = current_assignment, constructed = []\<rparr>
          else
            (case unit_propagate clauses1 current_assignment [] of
               (None, a2, tr2) \<Rightarrow>
                 \<lparr>sat = False, result = None,
                  assignment_after = a2, constructed = tr2\<rparr>
             | (Some clauses2, a2, tr2) \<Rightarrow>
                 (let pure_literals = find_pure_literals clauses2;
                      a3 = a2 @ pure_literals;
                      tr3 = tr2 @ appends a2 pure_literals
                  in case simplify clauses2 pure_literals of
                       None \<Rightarrow>
                         \<lparr>sat = False, result = None,
                          assignment_after = a3, constructed = tr3\<rparr>
                     | Some clauses3 \<Rightarrow>
                         (case choose_literal clauses3 of
                            None \<Rightarrow>
                              \<lparr>sat = True, result = Some a3,
                               assignment_after = a3, constructed = tr3\<rparr>
                          | Some variable \<Rightarrow>
                              (let r1 = dpll_run clauses3 (a3 @ [variable]);
                                   tr4 = tr3 @ [a3 @ [variable]] @ constructed r1
                               in if sat r1
                                  then \<lparr>sat = True, result = result r1,
                                         assignment_after = a3, constructed = tr4\<rparr>
                                  else
                                    (let r2 = dpll_run clauses3 (a3 @ [- variable]);
                                         tr5 = tr4 @ [a3 @ [- variable]] @ constructed r2
                                     in if sat r2
                                        then \<lparr>sat = True, result = result r2,
                                               assignment_after = a3, constructed = tr5\<rparr>
                                        else \<lparr>sat = False, result = None,
                                               assignment_after = a3, constructed = tr5\<rparr>))))))"
  by pat_completeness auto
termination
  by (relation "measure dpll_measure") (auto intro: dpll_measure_branch)

declare dpll_run.simps [simp del]

definition dpll :: "int list list \<Rightarrow> int list \<Rightarrow> bool \<times> int list option" where
  "dpll clauses current_assignment =
     (let r = dpll_run clauses current_assignment in (sat r, result r))"

subsection \<open>The pure-literal rule never conflicts (claim C10)\<close>

lemma unit_propagate_no_empty:
  "unit_propagate clauses a tr = (Some cs, a', tr') \<Longrightarrow> [] \<notin> set clauses \<Longrightarrow> [] \<notin> set cs"
proof (induction clauses a tr rule: unit_propagate.induct)
  case (1 clauses current_assignment constructed)
  show ?case
  proof (cases "find_unit_clause clauses")
    case None
    with "1.prems" show ?thesis by (simp add: unit_propagate_done)
  next
    case (Some u)
    note u = this
    show ?thesis
    proof (cases "simplify clauses [u]")
      case None
      with u "1.prems" show ?thesis by (simp add: unit_propagate_conflict)
    next
      case (Some clauses')
      with u "1.prems"
      have "unit_propagate clauses' (current_assignment @ [u])
              (constructed @ [current_assignment @ [u]]) = (Some cs, a', tr')"
        by (simp add: unit_propagate_step)
      with "1.IH" [OF u refl Some] simplify_no_empty [OF Some] show ?thesis by simp
    qed
  qed
qed

lemma pure_simplify:
  assumes "[] \<notin> set clauses"
  shows "simplify clauses (find_pure_literals clauses) =
     Some (filter (\<lambda>c. \<not> (\<exists>l \<in> set c. l \<in> set (find_pure_literals clauses))) clauses)"
proof (rule simplify_untouched [OF assms])
  show "\<forall>l \<in> literals_of clauses. - l \<notin> set (find_pure_literals clauses)"
    by (auto simp: find_pure_literals_iff)
qed

text \<open>
  Claim C10, as the code has it. A clause list with an empty clause makes
  \<open>simplify(clauses, find_pure_literals(clauses))\<close> return \<open>None\<close> (the clause list
  \<open>[[]]\<close> is evaluated below), so the statement holds for the
  clause lists without an empty clause: there the call returns the clauses that hold no
  pure literal, unchanged. The clause list that reaches the pure-literal rule in \<open>dpll\<close>
  has gone through \<open>simplify\<close> and the unit-propagation loop and has no empty clause, so
  the conflict branch after the pure-literal rule is never taken.
\<close>

theorem pure_literal_conflict_unreachable:
  "([] \<notin> set clauses \<longrightarrow>
      simplify clauses (find_pure_literals clauses) =
        Some (filter (\<lambda>c. \<not> (\<exists>l \<in> set c. l \<in> set (find_pure_literals clauses))) clauses))
   \<and> (simplify formula current_assignment = Some clauses1
        \<and> unit_propagate clauses1 current_assignment tr = (Some clauses2, a2, tr2)
      \<longrightarrow> simplify clauses2 (find_pure_literals clauses2) \<noteq> None)"
proof (intro conjI impI)
  assume "[] \<notin> set clauses"
  then show "simplify clauses (find_pure_literals clauses) =
        Some (filter (\<lambda>c. \<not> (\<exists>l \<in> set c. l \<in> set (find_pure_literals clauses))) clauses)"
    by (rule pure_simplify)
next
  assume a: "simplify formula current_assignment = Some clauses1
        \<and> unit_propagate clauses1 current_assignment tr = (Some clauses2, a2, tr2)"
  then have "[] \<notin> set clauses1" by (auto dest: simplify_no_empty)
  with a have "[] \<notin> set clauses2" by (auto dest: unit_propagate_no_empty)
  then show "simplify clauses2 (find_pure_literals clauses2) \<noteq> None"
    by (simp add: pure_simplify)
qed

lemma find_pure_ex: "find_pure_literals [[1, 2], [- 1, 2]] = [2]"
  by (simp add: find_pure_literals_def count_literals_def)

lemma up_ex: "unit_propagate [[1, 2], [- 1, 2], [3]] [] [] = (Some [[1, 2], [- 1, 2]], [3], [[3]])"
  by (simp add: unit_propagate.simps Let_def)

theorem pure_literal_conflict_unreachable_witness:
  "[] \<notin> set [[1, 2], [- 1, 2 :: int]]
   \<and> simplify [[1, 2], [- 1, 2]] (find_pure_literals [[1, 2], [- 1, 2]]) = Some []
   \<and> simplify [[1, 2], [- 1, 2], [3]] [] = Some [[1, 2], [- 1, 2], [3]]
   \<and> unit_propagate [[1, 2], [- 1, 2], [3]] [] [] = (Some [[1, 2], [- 1, 2]], [3], [[3]])
   \<and> simplify [[1, 2], [- 1, 2]] (find_pure_literals [[1, 2], [- 1, 2]]) \<noteq> None"
  using pure_literal_conflict_unreachable
    [of "[[1, 2], [- 1, 2]]" "[[1, 2], [- 1, 2], [3]]" "[]" "[[1, 2], [- 1, 2], [3]]" "[]"
        "[[1, 2], [- 1, 2]]" "[3]" "[[3]]"]
  by (simp add: find_pure_ex up_ex)

text \<open>
  Claim C10 as stated (for every clause list) fails at the clause list \<open>[[]]\<close>: it has no
  literal, hence no pure literal, and \<open>simplify\<close> finds its empty clause.
\<close>

theorem pure_simplify_empty_clause_counterexample:
  "simplify [[]] (find_pure_literals [[]]) = None"
  by (simp add: find_pure_literals_def count_literals_def)

subsection \<open>Case analysis and induction for \<open>dpll\<close>\<close>

lemma dpll_run_conflict:
  "simplify clauses a = None \<Longrightarrow>
   dpll_run clauses a = \<lparr>sat = False, result = None,
      assignment_after = a, constructed = []\<rparr>"
  by (simp add: dpll_run.simps)

lemma dpll_run_empty:
  "simplify clauses a = Some [] \<Longrightarrow>
   dpll_run clauses a = \<lparr>sat = True, result = Some a,
      assignment_after = a, constructed = []\<rparr>"
  by (simp add: dpll_run.simps)

lemma dpll_run_unit_conflict:
  "simplify clauses a = Some cs1 \<Longrightarrow> cs1 \<noteq> [] \<Longrightarrow> unit_propagate cs1 a [] = (None, a2, tr2) \<Longrightarrow>
   dpll_run clauses a = \<lparr>sat = False, result = None,
      assignment_after = a2, constructed = tr2\<rparr>"
  by (simp add: dpll_run.simps)

lemma dpll_run_pure_conflict:
  "simplify clauses a = Some cs1 \<Longrightarrow> cs1 \<noteq> [] \<Longrightarrow>
   unit_propagate cs1 a [] = (Some cs2, a2, tr2) \<Longrightarrow>
   simplify cs2 (find_pure_literals cs2) = None \<Longrightarrow>
   dpll_run clauses a = \<lparr>sat = False, result = None,
      assignment_after = a2 @ find_pure_literals cs2,
      constructed = tr2 @ appends a2 (find_pure_literals cs2)\<rparr>"
  by (simp add: dpll_run.simps Let_def)

lemma dpll_run_no_literal:
  "simplify clauses a = Some cs1 \<Longrightarrow> cs1 \<noteq> [] \<Longrightarrow>
   unit_propagate cs1 a [] = (Some cs2, a2, tr2) \<Longrightarrow>
   simplify cs2 (find_pure_literals cs2) = Some cs3 \<Longrightarrow> choose_literal cs3 = None \<Longrightarrow>
   dpll_run clauses a = \<lparr>sat = True, result = Some (a2 @ find_pure_literals cs2),
      assignment_after = a2 @ find_pure_literals cs2,
      constructed = tr2 @ appends a2 (find_pure_literals cs2)\<rparr>"
  by (simp add: dpll_run.simps Let_def)

lemma dpll_run_branch:
  assumes "simplify clauses a = Some cs1" "cs1 \<noteq> []"
   "unit_propagate cs1 a [] = (Some cs2, a2, tr2)"
   "simplify cs2 (find_pure_literals cs2) = Some cs3" "choose_literal cs3 = Some v"
   "a3 = a2 @ find_pure_literals cs2"
   "r1 = dpll_run cs3 (a3 @ [v])" "r2 = dpll_run cs3 (a3 @ [- v])"
   "tr4 = tr2 @ appends a2 (find_pure_literals cs2) @ [a3 @ [v]] @ constructed r1"
  shows "dpll_run clauses a =
     (if sat r1 then \<lparr>sat = True, result = result r1,
      assignment_after = a3, constructed = tr4\<rparr>
      else if sat r2 then \<lparr>sat = True, result = result r2,
      assignment_after = a3,
             constructed = tr4 @ [a3 @ [- v]] @ constructed r2\<rparr>
      else \<lparr>sat = False, result = None,
      assignment_after = a3,
             constructed = tr4 @ [a3 @ [- v]] @ constructed r2\<rparr>)"
  using assms by (simp add: dpll_run.simps [of clauses a] Let_def)

lemma dpll_run_induct [case_names conflict empty unit_conflict pure_conflict no_literal branch]:
  assumes "\<And>clauses a. simplify clauses a = None \<Longrightarrow> P clauses a"
    and "\<And>clauses a. simplify clauses a = Some [] \<Longrightarrow> P clauses a"
    and "\<And>clauses a cs1 a2 tr2. simplify clauses a = Some cs1 \<Longrightarrow> cs1 \<noteq> [] \<Longrightarrow>
           unit_propagate cs1 a [] = (None, a2, tr2) \<Longrightarrow> P clauses a"
    and "\<And>clauses a cs1 cs2 a2 tr2. simplify clauses a = Some cs1 \<Longrightarrow> cs1 \<noteq> [] \<Longrightarrow>
           unit_propagate cs1 a [] = (Some cs2, a2, tr2) \<Longrightarrow>
           simplify cs2 (find_pure_literals cs2) = None \<Longrightarrow> P clauses a"
    and "\<And>clauses a cs1 cs2 a2 tr2 cs3. simplify clauses a = Some cs1 \<Longrightarrow> cs1 \<noteq> [] \<Longrightarrow>
           unit_propagate cs1 a [] = (Some cs2, a2, tr2) \<Longrightarrow>
           simplify cs2 (find_pure_literals cs2) = Some cs3 \<Longrightarrow> choose_literal cs3 = None \<Longrightarrow>
           P clauses a"
    and "\<And>clauses a cs1 cs2 a2 tr2 cs3 v a3. simplify clauses a = Some cs1 \<Longrightarrow> cs1 \<noteq> [] \<Longrightarrow>
           unit_propagate cs1 a [] = (Some cs2, a2, tr2) \<Longrightarrow>
           simplify cs2 (find_pure_literals cs2) = Some cs3 \<Longrightarrow> choose_literal cs3 = Some v \<Longrightarrow>
           a3 = a2 @ find_pure_literals cs2 \<Longrightarrow>
           P cs3 (a3 @ [v]) \<Longrightarrow>
           (\<not> sat (dpll_run cs3 (a3 @ [v])) \<Longrightarrow> P cs3 (a3 @ [- v])) \<Longrightarrow>
           P clauses a"
  shows "P clauses a"
proof (induction clauses a rule: dpll_run.induct)
  case (1 clauses a)
  show ?case
  proof (cases "simplify clauses a")
    case None
    then show ?thesis by (rule assms(1))
  next
    case (Some cs1)
    note s1 = this
    show ?thesis
    proof (cases "cs1 = []")
      case True
      with s1 show ?thesis by (auto intro: assms(2))
    next
      case ne: False
      obtain r a2 tr2 where up: "unit_propagate cs1 a [] = (r, a2, tr2)"
        by (cases "unit_propagate cs1 a []") auto
      show ?thesis
      proof (cases r)
        case None
        with s1 ne up show ?thesis by (auto intro: assms(3))
      next
        case (Some cs2)
        note up2 = up [unfolded Some]
        show ?thesis
        proof (cases "simplify cs2 (find_pure_literals cs2)")
          case None
          with s1 ne up2 show ?thesis by (auto intro: assms(4))
        next
          case (Some cs3)
          note s3 = this
          show ?thesis
          proof (cases "choose_literal cs3")
            case None
            with s1 ne up2 s3 show ?thesis by (auto intro: assms(5))
          next
            case (Some v)
            have ih1: "P cs3 ((a2 @ find_pure_literals cs2) @ [v])"
              by (rule "1.IH"(1) [OF s1 ne up2 [symmetric] refl refl refl refl refl s3 Some])
            have ih2: "P cs3 ((a2 @ find_pure_literals cs2) @ [- v])"
              if "\<not> sat (dpll_run cs3 ((a2 @ find_pure_literals cs2) @ [v]))"
              by (rule "1.IH"(2) [OF s1 ne up2 [symmetric] refl refl refl refl refl s3 Some refl refl that])
            show ?thesis
              by (rule assms(6) [OF s1 ne up2 s3 Some refl ih1 ih2])
          qed
        qed
      qed
    qed
  qed
qed

subsection \<open>The assignment returned with SAT satisfies the formula (claim C4)\<close>

text \<open>
  An assignment satisfies a formula when every clause holds one of its literals:
  \<open>all(any(literal in assignment for literal in clause) for clause in clauses)\<close>.
\<close>

definition satisfies :: "int list \<Rightarrow> int list list \<Rightarrow> bool" where
  "satisfies assignment clauses =
     list_all (\<lambda>clause. list_ex (\<lambda>literal. literal \<in> set assignment) clause) clauses"

lemma satisfies_iff:
  "satisfies A clauses \<longleftrightarrow> (\<forall>clause \<in> set clauses. \<exists>literal \<in> set clause. literal \<in> set A)"
  by (simp add: satisfies_def list_all_iff list_ex_iff)

lemma prefix_set: "prefix xs ys \<Longrightarrow> set xs \<subseteq> set ys"
  by (auto simp: prefix_def)

lemma prefix_append_set: "prefix (xs @ zs) ys \<Longrightarrow> set xs \<subseteq> set ys"
  by (auto simp: prefix_def)

lemma simplify_satisfied_back:
  "simplify clauses a = Some cs \<Longrightarrow> set a \<subseteq> set A \<Longrightarrow> satisfies A cs \<Longrightarrow> satisfies A clauses"
proof (induction clauses arbitrary: cs)
  case Nil
  then show ?case by (simp add: satisfies_iff)
next
  case (Cons c clauses)
  show ?case
  proof (cases "\<exists>literal \<in> set c. literal \<in> set a")
    case True
    with Cons.prems(1) have "simplify clauses a = Some cs" by simp
    from Cons.IH [OF this Cons.prems(2,3)] True Cons.prems(2)
    show ?thesis by (auto simp: satisfies_iff)
  next
    case False
    with Cons.prems(1) obtain cs' where
      cs': "simplify clauses a = Some cs'" and
      cs: "cs = filter (\<lambda>literal. - literal \<notin> set a) c # cs'"
      by (auto simp: Let_def split: if_splits)
    from Cons.prems(3) cs have "satisfies A cs'" and
      "\<exists>literal \<in> set (filter (\<lambda>literal. - literal \<notin> set a) c). literal \<in> set A"
      by (auto simp: satisfies_iff)
    with Cons.IH [OF cs' Cons.prems(2)] show ?thesis
      by (auto simp: satisfies_iff)
  qed
qed

lemma unit_propagate_prefix:
  "unit_propagate clauses a tr = (r, a', tr') \<Longrightarrow> prefix a a'"
proof (induction clauses a tr rule: unit_propagate.induct)
  case (1 clauses current_assignment constructed)
  show ?case
  proof (cases "find_unit_clause clauses")
    case None
    with "1.prems" show ?thesis by (simp add: unit_propagate_done)
  next
    case (Some u)
    note u = this
    show ?thesis
    proof (cases "simplify clauses [u]")
      case None
      with u "1.prems" show ?thesis by (auto simp: unit_propagate_conflict)
    next
      case (Some clauses')
      with u "1.prems"
      have "unit_propagate clauses' (current_assignment @ [u])
              (constructed @ [current_assignment @ [u]]) = (r, a', tr')"
        by (simp add: unit_propagate_step)
      with "1.IH" [OF u refl Some]
      have "prefix (current_assignment @ [u]) a'" by simp
      then show ?thesis by (rule append_prefixD)
    qed
  qed
qed

lemma unit_propagate_satisfied_back:
  "unit_propagate clauses a tr = (Some cs, a', tr') \<Longrightarrow> set a' \<subseteq> set A \<Longrightarrow>
   satisfies A cs \<Longrightarrow> satisfies A clauses"
proof (induction clauses a tr rule: unit_propagate.induct)
  case (1 clauses current_assignment constructed)
  show ?case
  proof (cases "find_unit_clause clauses")
    case None
    with "1.prems" show ?thesis by (simp add: unit_propagate_done)
  next
    case (Some u)
    note u = this
    show ?thesis
    proof (cases "simplify clauses [u]")
      case None
      with u "1.prems" show ?thesis by (simp add: unit_propagate_conflict)
    next
      case (Some clauses')
      with u "1.prems"
      have up: "unit_propagate clauses' (current_assignment @ [u])
              (constructed @ [current_assignment @ [u]]) = (Some cs, a', tr')"
        by (simp add: unit_propagate_step)
      from "1.IH" [OF u refl Some up "1.prems"(2,3)]
      have "satisfies A clauses'" .
      moreover have "set (current_assignment @ [u]) \<subseteq> set a'"
        using unit_propagate_prefix [OF up] by (rule prefix_set)
      with "1.prems"(2) have "set [u] \<subseteq> set A" by auto
      ultimately show ?thesis using simplify_satisfied_back [OF Some] by blast
    qed
  qed
qed

lemma choose_literal_None: "choose_literal clauses = None \<Longrightarrow> [] \<notin> set clauses \<Longrightarrow> clauses = []"
  by (induction clauses rule: choose_literal.induct) auto

lemma dpll_run_sound:
  "sat (dpll_run clauses a) \<Longrightarrow>
   \<exists>A. result (dpll_run clauses a) = Some A \<and> prefix a A \<and> satisfies A clauses"
proof (induction clauses a rule: dpll_run_induct)
  case (conflict clauses a)
  then show ?case by (simp add: dpll_run_conflict)
next
  case (empty clauses a)
  have "satisfies a clauses"
    by (rule simplify_satisfied_back [OF empty(1)]) (simp_all add: satisfies_iff)
  with empty show ?case by (simp add: dpll_run_empty)
next
  case (unit_conflict clauses a cs1 a2 tr2)
  then show ?case by (simp add: dpll_run_unit_conflict)
next
  case (pure_conflict clauses a cs1 cs2 a2 tr2)
  then show ?case by (simp add: dpll_run_pure_conflict)
next
  case (no_literal clauses a cs1 cs2 a2 tr2 cs3)
  let ?A = "a2 @ find_pure_literals cs2"
  have pre: "prefix a a2" using no_literal(3) by (rule unit_propagate_prefix)
  have "cs3 = []"
    using no_literal(5) simplify_no_empty [OF no_literal(4)] by (rule choose_literal_None)
  then have "satisfies ?A cs3" by (simp add: satisfies_iff)
  then have "satisfies ?A cs2"
    by (intro simplify_satisfied_back [OF no_literal(4)]) auto
  then have "satisfies ?A cs1"
    by (intro unit_propagate_satisfied_back [OF no_literal(3)]) auto
  then have "satisfies ?A clauses"
    using prefix_set [OF pre] by (intro simplify_satisfied_back [OF no_literal(1)]) auto
  moreover have "prefix a ?A" using pre by (simp add: prefix_prefix)
  ultimately show ?case
    using dpll_run_no_literal [OF no_literal(1-5)] by simp
next
  case (branch clauses a cs1 cs2 a2 tr2 cs3 v a3)
  have pre: "prefix a a2" using branch(3) by (rule unit_propagate_prefix)
  have pre3: "prefix a a3" using pre branch(6) by (simp add: prefix_prefix)
  note run = dpll_run_branch [OF branch(1-6) refl refl refl]
  have lift: "satisfies A clauses" if "prefix (a3 @ [w]) A" and "satisfies A cs3" for A w
  proof -
    have sub: "set a3 \<subseteq> set A" using that(1) by (rule prefix_append_set)
    have "satisfies A cs2"
      using sub branch(6) that(2) by (intro simplify_satisfied_back [OF branch(4)]) auto
    then have "satisfies A cs1"
      using sub branch(6) by (intro unit_propagate_satisfied_back [OF branch(3)]) auto
    then show ?thesis
      using sub prefix_set [OF pre3] by (intro simplify_satisfied_back [OF branch(1)]) auto
  qed
  show ?case
  proof (cases "sat (dpll_run cs3 (a3 @ [v]))")
    case True
    from branch(7) [OF True] obtain A where
      A: "result (dpll_run cs3 (a3 @ [v])) = Some A" "prefix (a3 @ [v]) A" "satisfies A cs3"
      by blast
    have "prefix a A" using pre3 A(2) by (meson append_prefixD prefix_order.trans)
    with A lift [OF A(2,3)] True show ?thesis by (simp add: run)
  next
    case False
    with branch.prems have s2: "sat (dpll_run cs3 (a3 @ [- v]))"
      by (simp add: run split: if_splits)
    from branch(8) [OF False s2] obtain A where
      A: "result (dpll_run cs3 (a3 @ [- v])) = Some A" "prefix (a3 @ [- v]) A" "satisfies A cs3"
      by blast
    have "prefix a A" using pre3 A(2) by (meson append_prefixD prefix_order.trans)
    with A lift [OF A(2,3)] False s2 show ?thesis by (simp add: run)
  qed
qed

text \<open>
  Claim C4: whenever \<open>dpll\<close>, called with the empty assignment, returns SAT, it returns
  an assignment with it, and every clause of the formula passed in holds a literal of that
  assignment.
\<close>

theorem dpll_witness_valid:
  "dpll clauses [] = (True, r) \<Longrightarrow>
   \<exists>A. r = Some A \<and> (\<forall>clause \<in> set clauses. \<exists>literal \<in> set clause. literal \<in> set A)"
  using dpll_run_sound [of clauses "[]"]
  by (auto simp: dpll_def Let_def satisfies_iff)

lemma dpll_scenario_4: "dpll [[1, 2], [- 1, 2], [1, - 2]] [] = (True, Some [1, 2])"
  by code_simp

theorem dpll_witness_valid_witness:
  "dpll [[1, 2], [- 1, 2], [1, - 2]] [] = (True, Some [1, 2])
   \<and> (\<exists>A. Some [1, 2 :: int] = Some A
        \<and> (\<forall>clause \<in> set [[1, 2], [- 1, 2], [1, - 2]]. \<exists>literal \<in> set clause. literal \<in> set A))"
  by (intro conjI dpll_scenario_4 dpll_witness_valid [OF dpll_scenario_4])

subsection \<open>Every assignment of a run is consistent (claim C5)\<close>

text \<open>
  An assignment is consistent when no variable \<open>v\<close> (a positive integer, the absolute value
  of a literal) occurs in it in both polarities.
\<close>

definition consistent :: "int list \<Rightarrow> bool" where
  "consistent assignment = (\<not> (\<exists>v \<in> set assignment. 0 < v \<and> - v \<in> set assignment))"

text \<open>No literal of the clauses is assigned, in either polarity.\<close>

definition unassigned :: "int list list \<Rightarrow> int list \<Rightarrow> bool" where
  "unassigned clauses assignment =
     (\<forall>l \<in> literals_of clauses. l \<notin> set assignment \<and> - l \<notin> set assignment)"

lemma consistent_snoc: "consistent a \<Longrightarrow> - l \<notin> set a \<Longrightarrow> consistent (a @ [l])"
  unfolding consistent_def by (auto; metis minus_minus)

lemma consistent_prefix: "prefix b a \<Longrightarrow> consistent a \<Longrightarrow> consistent b"
  unfolding consistent_def by (auto dest!: prefix_set)

lemma consistent_append:
  assumes "consistent a" and "\<forall>p \<in> set ps. - p \<notin> set a \<and> - p \<notin> set ps"
  shows "consistent (a @ ps)"
  using assms unfolding consistent_def by (auto; metis minus_minus)

lemma appends_prefix: "b \<in> set (appends a ps) \<Longrightarrow> prefix b (a @ ps)"
  by (auto simp: appends_def take_is_prefix)

lemma simplify_unassigned: "simplify clauses a = Some cs \<Longrightarrow> unassigned cs a"
  unfolding unassigned_def using simplify_literals by blast

lemma unit_propagate_consistent:
  "unit_propagate clauses a tr = (r, a', tr') \<Longrightarrow> unassigned clauses a \<Longrightarrow> consistent a \<Longrightarrow>
   \<forall>b \<in> set tr. consistent b \<Longrightarrow>
   consistent a' \<and> (\<forall>b \<in> set tr'. consistent b) \<and> (\<forall>cs. r = Some cs \<longrightarrow> unassigned cs a')"
proof (induction clauses a tr rule: unit_propagate.induct)
  case (1 clauses current_assignment constructed)
  show ?case
  proof (cases "find_unit_clause clauses")
    case None
    with "1.prems" show ?thesis by (auto simp: unit_propagate_done)
  next
    case (Some u)
    note u = this
    have "u \<in> literals_of clauses"
      using find_unit_clause_mem [OF u] by (force simp: literals_of_def)
    with "1.prems"(2) have "- u \<notin> set current_assignment" by (simp add: unassigned_def)
    with "1.prems"(3) have cons: "consistent (current_assignment @ [u])"
      by (rule consistent_snoc)
    show ?thesis
    proof (cases "simplify clauses [u]")
      case None
      with u "1.prems" cons show ?thesis by (auto simp: unit_propagate_conflict)
    next
      case (Some clauses')
      with u "1.prems"
      have up: "unit_propagate clauses' (current_assignment @ [u])
              (constructed @ [current_assignment @ [u]]) = (r, a', tr')"
        by (simp add: unit_propagate_step)
      have "unassigned clauses' (current_assignment @ [u])"
        using simplify_literals [OF Some] "1.prems"(2) unfolding unassigned_def by auto
      moreover have "\<forall>b \<in> set (constructed @ [current_assignment @ [u]]). consistent b"
        using "1.prems"(4) cons by auto
      ultimately show ?thesis
        using "1.IH" [OF u refl Some up] cons by blast
    qed
  qed
qed

lemma pure_append_consistent:
  assumes "unassigned cs a" "consistent a"
  shows "consistent (a @ find_pure_literals cs)"
proof (rule consistent_append [OF assms(2)])
  show "\<forall>p \<in> set (find_pure_literals cs). - p \<notin> set a \<and> - p \<notin> set (find_pure_literals cs)"
    using assms(1) by (auto simp: find_pure_literals_iff unassigned_def)
qed

lemma pure_simplify_unassigned:
  assumes "unassigned cs a" "simplify cs ps = Some cs'"
  shows "unassigned cs' (a @ ps)"
  using simplify_literals [OF assms(2)] assms(1) unfolding unassigned_def by auto

lemma branch_consistent:
  assumes "unassigned cs a" "consistent a" "choose_literal cs = Some v"
  shows "consistent (a @ [v])" "consistent (a @ [- v])"
proof -
  from choose_literal_mem [OF assms(3)] obtain l where "l \<in> literals_of cs" "v = \<bar>l\<bar>"
    by blast
  with assms(1) have "v \<notin> set a" "- v \<notin> set a"
    unfolding unassigned_def by (auto simp: abs_if split: if_splits)
  with assms(2) show "consistent (a @ [v])" "consistent (a @ [- v])"
    by (auto intro: consistent_snoc)
qed

lemma dpll_run_consistent:
  "consistent a \<Longrightarrow>
   (\<forall>b \<in> set (constructed (dpll_run clauses a)). consistent b)
   \<and> consistent (assignment_after (dpll_run clauses a))
   \<and> (\<forall>A. result (dpll_run clauses a) = Some A \<longrightarrow> consistent A)"
proof (induction clauses a rule: dpll_run_induct)
  case (conflict clauses a)
  then show ?case by (simp add: dpll_run_conflict)
next
  case (empty clauses a)
  then show ?case by (simp add: dpll_run_empty)
next
  case (unit_conflict clauses a cs1 a2 tr2)
  from unit_propagate_consistent [OF unit_conflict(3) simplify_unassigned [OF unit_conflict(1)]
      unit_conflict.prems]
  show ?case by (simp add: dpll_run_unit_conflict [OF unit_conflict(1-3)])
next
  case (pure_conflict clauses a cs1 cs2 a2 tr2)
  from unit_propagate_consistent [OF pure_conflict(3) simplify_unassigned [OF pure_conflict(1)]
      pure_conflict.prems]
  have a2: "consistent a2" "\<forall>b \<in> set tr2. consistent b" "unassigned cs2 a2" by simp_all
  have a3: "consistent (a2 @ find_pure_literals cs2)"
    using a2(3,1) by (rule pure_append_consistent)
  then have "\<forall>b \<in> set (appends a2 (find_pure_literals cs2)). consistent b"
    by (auto dest: appends_prefix consistent_prefix)
  with a2 a3 show ?case by (auto simp: dpll_run_pure_conflict [OF pure_conflict(1-4)])
next
  case (no_literal clauses a cs1 cs2 a2 tr2 cs3)
  from unit_propagate_consistent [OF no_literal(3) simplify_unassigned [OF no_literal(1)]
      no_literal.prems]
  have a2: "consistent a2" "\<forall>b \<in> set tr2. consistent b" "unassigned cs2 a2" by simp_all
  have a3: "consistent (a2 @ find_pure_literals cs2)"
    using a2(3,1) by (rule pure_append_consistent)
  then have "\<forall>b \<in> set (appends a2 (find_pure_literals cs2)). consistent b"
    by (auto dest: appends_prefix consistent_prefix)
  with a2 a3 show ?case by (auto simp: dpll_run_no_literal [OF no_literal(1-5)])
next
  case (branch clauses a cs1 cs2 a2 tr2 cs3 v a3)
  from unit_propagate_consistent [OF branch(3) simplify_unassigned [OF branch(1)] branch.prems]
  have a2: "consistent a2" "\<forall>b \<in> set tr2. consistent b" "unassigned cs2 a2" by simp_all
  have a3: "consistent a3"
    unfolding branch(6) using a2(3,1) by (rule pure_append_consistent)
  then have ap: "\<forall>b \<in> set (appends a2 (find_pure_literals cs2)). consistent b"
    unfolding branch(6) by (auto dest: appends_prefix consistent_prefix)
  have un3: "unassigned cs3 a3"
    unfolding branch(6) using a2(3) branch(4) by (rule pure_simplify_unassigned)
  note br = branch_consistent [OF un3 a3 branch(5)]
  note run = dpll_run_branch [OF branch(1-6) refl refl refl]
  note ih1 = branch(7) [OF br(1)]
  show ?case
  proof (cases "sat (dpll_run cs3 (a3 @ [v]))")
    case True
    with ih1 a2 a3 ap br show ?thesis by (auto simp: run)
  next
    case False
    note ih2 = branch(8) [OF False br(2)]
    show ?thesis
    proof (cases "sat (dpll_run cs3 (a3 @ [- v]))")
      case True
      with False ih1 ih2 a2 a3 ap br show ?thesis by (auto simp: run)
    next
      case f2: False
      with False ih1 ih2 a2 a3 ap br show ?thesis by (auto simp: run)
    qed
  qed
qed

text \<open>
  Claim C5: started from a consistent assignment, \<open>dpll\<close> only ever builds consistent
  assignments (the contents the caller's list has after each \<open>append\<close> of a unit or pure
  literal, the lists \<open>current_assignment + [value]\<close> passed to the recursive calls, and
  those of the recursive calls in turn), it leaves the caller's list consistent, and an
  assignment returned with SAT is consistent.
\<close>

theorem dpll_assignments_consistent:
  "consistent current_assignment \<Longrightarrow>
   (\<forall>b \<in> set (constructed (dpll_run clauses current_assignment)). consistent b)
   \<and> consistent (assignment_after (dpll_run clauses current_assignment))
   \<and> (\<forall>A. snd (dpll clauses current_assignment) = Some A \<longrightarrow> consistent A)"
  unfolding dpll_def Let_def snd_conv by (rule dpll_run_consistent)

lemma dpll_run_example:
  "dpll_run [[1, 2], [- 1, 2], [- 1, - 2], [3]] [5] =
     \<lparr>sat = True, result = Some [5, 3, - 1, 2],
      assignment_after = [5, 3],
      constructed = [[5, 3], [5, 3, 1], [5, 3, 1, 2], [5, 3, - 1], [5, 3, - 1, 2]]\<rparr>"
  by code_simp

theorem dpll_assignments_consistent_witness:
  "consistent [5]
   \<and> [5, 3, 1, 2] \<in> set (constructed (dpll_run [[1, 2], [- 1, 2], [- 1, - 2], [3]] [5]))
   \<and> consistent [5, 3, 1, 2]
   \<and> assignment_after (dpll_run [[1, 2], [- 1, 2], [- 1, - 2], [3]] [5]) = [5, 3]
   \<and> consistent [5, 3]
   \<and> snd (dpll [[1, 2], [- 1, 2], [- 1, - 2], [3]] [5]) = Some [5, 3, - 1, 2]
   \<and> consistent [5, 3, - 1, 2]"
proof -
  let ?r = "dpll_run [[1, 2], [- 1, 2], [- 1, - 2], [3]] [5]"
  have c5: "consistent [5]" by (simp add: consistent_def)
  have m: "[5, 3, 1, 2] \<in> set (constructed ?r)"
    and a: "assignment_after ?r = [5, 3]"
    and s: "snd (dpll [[1, 2], [- 1, 2], [- 1, - 2], [3]] [5]) = Some [5, 3, - 1, 2]"
    by (simp_all add: dpll_def dpll_run_example)
  note t = dpll_assignments_consistent [OF c5, of "[[1, 2], [- 1, 2], [- 1, - 2], [3]]"]
  from t have "\<forall>b \<in> set (constructed ?r). consistent b" by (rule conjunct1)
  then have c1: "consistent [5, 3, 1, 2]" using m by (rule bspec)
  from t have "consistent (assignment_after ?r)" by (elim conjE)
  then have c2: "consistent [5, 3]" by (simp only: a)
  from t have "\<forall>A. snd (dpll [[1, 2], [- 1, 2], [- 1, - 2], [3]] [5]) = Some A \<longrightarrow> consistent A"
    by (elim conjE)
  then have "snd (dpll [[1, 2], [- 1, 2], [- 1, - 2], [3]] [5]) = Some [5, 3, - 1, 2]
      \<longrightarrow> consistent [5, 3, - 1, 2]" by (rule spec)
  then have c3: "consistent [5, 3, - 1, 2]" using s by (rule mp)
  from c5 m c1 a c2 s c3 show ?thesis by (intro conjI)
qed

section \<open>Clauses as Python objects, and the DIMACS parser\<close>

text \<open>
  \<open>parse_cnf_file\<close> builds every clause as a list or, with \<open>as_sets=True\<close>, as a set;
  the DP engine then mixes the clauses it is given with the lists \<open>resolve\<close> returns, and
  its test \<open>[] in formula\<close> compares by \<open>==\<close>, under which a list never equals a set.
  So a clause carries its Python type. A set is given by its elements in iteration order
  (an order Python does not specify: nothing below rests on it but the order of the
  literals inside a clause that is built from a set).
\<close>

datatype clause = PyList "int list" | PySet "int list"

fun elements :: "clause \<Rightarrow> int list" where
  "elements (PyList literals) = literals"
| "elements (PySet literals) = literals"

text \<open>
  Lines are ASCII strings. \<open>is_space\<close> holds of the ASCII characters for which Python's
  \<open>str.isspace\<close> does: tab, line feed, vertical tab, form feed, carriage return, the four
  separators \<open>0x1c\<close> to \<open>0x1f\<close>, and the space.
\<close>

definition is_space :: "char \<Rightarrow> bool" where
  "is_space ch = (of_char ch \<in> {9, 10, 11, 12, 13, 28, 29, 30, 31, 32 :: nat})"

definition strip :: "string \<Rightarrow> string" where
  "strip line = rev (dropWhile is_space (rev (dropWhile is_space line)))"

text \<open>\<open>line.split()\<close>: the maximal runs of characters that are not whitespace.\<close>

fun split_loop :: "string \<Rightarrow> string \<Rightarrow> string list" where
  "split_loop [] token = (if token = [] then [] else [token])"
| "split_loop (ch # rest) token =
     (if is_space ch
      then (if token = [] then split_loop rest [] else token # split_loop rest [])
      else split_loop rest (token @ [ch]))"

definition split :: "string \<Rightarrow> string list" where
  "split line = split_loop line []"

text \<open>
  \<open>int(token)\<close> on a token without whitespace: an optional sign, then decimal digits, where
  single underscores may stand between digits. Anything else raises \<open>ValueError\<close>, here
  \<open>None\<close>. (The digits of other scripts, which \<open>int\<close> also reads, are outside ASCII; the
  limit that recent interpreters put on the number of digits of one token is not
  modelled: a line with such a token would be skipped like any other invalid line.)
\<close>

definition is_digit :: "char \<Rightarrow> bool" where
  "is_digit ch = (48 \<le> (of_char ch :: nat) \<and> (of_char ch :: nat) \<le> 57)"

fun well_grouped :: "string \<Rightarrow> bool" where
  "well_grouped [] = False"
| "well_grouped [ch] = is_digit ch"
| "well_grouped (ch # ch' # rest) =
     (is_digit ch \<and> (if ch' = CHR ''_'' then well_grouped rest else well_grouped (ch' # rest)))"

definition digits_value :: "string \<Rightarrow> int" where
  "digits_value digits =
     foldl (\<lambda>n ch. 10 * n + (int (of_char ch) - 48)) 0 (filter is_digit digits)"

definition py_int :: "string \<Rightarrow> int option" where
  "py_int token =
     (case token of
        [] \<Rightarrow> None
      | ch # rest \<Rightarrow>
          if ch = CHR ''-'' then (if well_grouped rest then Some (- digits_value rest) else None)
          else if ch = CHR ''+'' then (if well_grouped rest then Some (digits_value rest) else None)
          else if well_grouped token then Some (digits_value token) else None)"

text \<open>\<open>list(map(int, line.split()))\<close>: \<open>None\<close> as soon as one token is not an integer.\<close>

fun map_int :: "string list \<Rightarrow> int list option" where
  "map_int [] = Some []"
| "map_int (token # tokens) =
     (case py_int token of
        None \<Rightarrow> None
      | Some n \<Rightarrow> map_option ((#) n) (map_int tokens))"

definition starts_with_any :: "string \<Rightarrow> char list \<Rightarrow> bool" where
  "starts_with_any line chars = (case line of [] \<Rightarrow> False | ch # rest \<Rightarrow> ch \<in> set chars)"

text \<open>
  One iteration of the loop over the lines of the file. \<open>line_literals\<close> is the list
  \<open>literals\<close> as first assigned, or \<open>None\<close> when the iteration ends in a \<open>continue\<close>
  before (a blank line, a line starting with \<open>c\<close>, \<open>p\<close> or \<open>%\<close>, a \<open>ValueError\<close>).
  \<open>parse_line\<close> is the clause the iteration appends to \<open>clauses_set\<close>, if any;
  \<open>set(literals)\<close> keeps one copy of every literal.
\<close>

definition line_literals :: "string \<Rightarrow> int list option" where
  "line_literals raw =
     (let line = strip raw in
      if line = [] \<or> starts_with_any line [CHR ''c'', CHR ''p'', CHR ''%''] then None
      else map_int (split line))"

definition strip_trailing_zero :: "int list \<Rightarrow> int list" where
  "strip_trailing_zero literals =
     (if literals \<noteq> [] \<and> last literals = 0 then butlast literals else literals)"

definition parse_line :: "bool \<Rightarrow> string \<Rightarrow> clause option" where
  "parse_line as_sets raw =
     (case line_literals raw of
        None \<Rightarrow> None
      | Some parsed \<Rightarrow>
          (let literals = strip_trailing_zero parsed in
           if literals \<noteq> []
           then Some (if as_sets then PySet (remdups literals) else PyList literals)
           else None))"

definition parse_cnf_file :: "string list \<Rightarrow> bool \<Rightarrow> clause list" where
  "parse_cnf_file lines as_sets = List.map_filter (parse_line as_sets) lines"

subsection \<open>What the parser stores (claim C8)\<close>




lemma set_map_filter_iff:
  "y \<in> set (List.map_filter f xs) \<longleftrightarrow> (\<exists>x \<in> set xs. f x = Some y)"
  by (induction xs) (auto split: option.splits)








lemma parse_example:
  "parse_cnf_file [''c x'', ''1 -2 0'', ''1 0 2 0'', ''0'', ''1 x''] False =
     [PyList [1, - 2], PyList [1, 0, 2]]"
  by code_simp



section \<open>The DP engine (dp.py)\<close>

text \<open>\<open>is_tautology\<close>: some literal of the clause has its negation in the clause.\<close>

definition is_tautology :: "int list \<Rightarrow> bool" where
  "is_tautology clause = (\<exists>literal \<in> set clause. - literal \<in> set clause)"

text \<open>
  \<open>resolve(clause1, clause2, variable)\<close>: the literals of \<open>clause1\<close> other than
  \<open>variable\<close> and those of \<open>clause2\<close> other than \<open>-variable\<close>, as a list without
  duplicates (\<open>list(set(...))\<close>, in an order Python does not specify), or \<open>None\<close> when that
  list is a tautology.
\<close>

definition resolve :: "clause \<Rightarrow> clause \<Rightarrow> int \<Rightarrow> clause option" where
  "resolve clause1 clause2 variable =
     (let resolvent = remdups (filter (\<lambda>literal. literal \<noteq> variable) (elements clause1)
                               @ filter (\<lambda>literal. literal \<noteq> - variable) (elements clause2))
      in if \<not> is_tautology resolvent then Some (PyList resolvent) else None)"

text \<open>
  What one iteration of the \<open>while variables\<close> loop of \<open>dp\<close> did: the variable it popped,
  the variables left in the set, the resolvents it collected and the formula it built.
\<close>

record dp_round =
  popped :: int
  variables_left :: "int list"
  new_clauses :: "clause list"
  formula_after :: "clause list"

text \<open>
  The two nested \<open>for\<close> loops: every clause with \<open>var\<close> against every clause with
  \<open>-var\<close>, keeping the resolvents that are not \<open>None\<close>.
\<close>

definition resolvents :: "clause list \<Rightarrow> clause list \<Rightarrow> int \<Rightarrow> clause list" where
  "resolvents pos_clauses neg_clauses var =
     concat (map (\<lambda>c1. List.map_filter (\<lambda>c2. resolve c1 c2 var) neg_clauses) pos_clauses)"

text \<open>
  The \<open>while variables\<close> loop. The set \<open>variables\<close> is given as the list of its elements
  in the order in which \<open>variables.pop()\<close> will return them, an order Python does not
  specify: the statements about the loop hold for every such list. The loop returns the
  verdict and the record of the iterations it ran. \<open>[] in formula\<close> compares with \<open>==\<close>:
  only an empty list equals \<open>[]\<close>, an empty set does not.
\<close>

fun dp_loop :: "clause list \<Rightarrow> int list \<Rightarrow> bool \<times> dp_round list" where
  "dp_loop formula [] = (True, [])"
| "dp_loop formula (var # variables) =
     (let pos_clauses = filter (\<lambda>clause. var \<in> set (elements clause)) formula;
          neg_clauses = filter (\<lambda>clause. - var \<in> set (elements clause)) formula;
          new_clauses = resolvents pos_clauses neg_clauses var;
          formula' = filter (\<lambda>clause. var \<notin> set (elements clause)
                                      \<and> - var \<notin> set (elements clause)) formula
                     @ new_clauses;
          round = \<lparr>popped = var, variables_left = variables, new_clauses = new_clauses,
                   formula_after = formula'\<rparr>
      in if PyList [] \<in> set formula' then (False, [round])
         else (case dp_loop formula' variables of
                 (verdict, rounds) \<Rightarrow> (verdict, round # rounds)))"

declare dp_loop.simps(2) [simp del]

text \<open>
  \<open>set(abs(literal) for clause in formula for literal in clause)\<close>, with the order of first
  occurrence standing for the order of \<open>pop\<close>.
\<close>

definition variables_of :: "clause list \<Rightarrow> int list" where
  "variables_of formula = remdups (map abs (concat (map elements formula)))"

text \<open>
  A call of \<open>dp\<close>: what it returns (\<open>verdict\<close>) and the iterations it ran.
  \<open>deepcopy(clauses)\<close> has the content of \<open>clauses\<close>.
\<close>

record dp_outcome =
  verdict :: bool
  rounds :: "dp_round list"

definition dp_run :: "clause list \<Rightarrow> dp_outcome" where
  "dp_run clauses =
     (let formula = clauses;
          variables = variables_of formula;
          (verdict, rounds) = dp_loop formula variables
      in \<lparr>verdict = verdict, rounds = rounds\<rparr>)"

definition dp :: "clause list \<Rightarrow> bool" where
  "dp clauses = verdict (dp_run clauses)"

subsection \<open>The iterations of \<open>dp\<close> (claim C7)\<close>

lemma dp_loop_Cons:
  "dp_loop formula (var # variables) =
     (let formula' = filter (\<lambda>clause. var \<notin> set (elements clause)
                                      \<and> - var \<notin> set (elements clause)) formula
             @ resolvents (filter (\<lambda>clause. var \<in> set (elements clause)) formula)
                 (filter (\<lambda>clause. - var \<in> set (elements clause)) formula) var;
          round = \<lparr>popped = var, variables_left = variables,
                   new_clauses = resolvents (filter (\<lambda>clause. var \<in> set (elements clause)) formula)
                     (filter (\<lambda>clause. - var \<in> set (elements clause)) formula) var,
                   formula_after = formula'\<rparr>
      in if PyList [] \<in> set formula' then (False, [round])
         else (fst (dp_loop formula' variables), round # snd (dp_loop formula' variables)))"
  by (simp add: dp_loop.simps(2) Let_def split: prod.splits)

lemma dp_loop_length: "length (snd (dp_loop formula variables)) \<le> length variables"
proof (induction variables arbitrary: formula)
  case Nil
  then show ?case by simp
next
  case (Cons var variables)
  show ?case
    unfolding dp_loop_Cons Let_def using Cons.IH by (auto simp: le_SucI)
qed

lemma dp_loop_popped:
  "k < length (snd (dp_loop formula variables)) \<Longrightarrow>
   popped (snd (dp_loop formula variables) ! k) = variables ! k
   \<and> variables_left (snd (dp_loop formula variables) ! k) = drop (Suc k) variables"
proof (induction variables arbitrary: formula k)
  case Nil
  then show ?case by simp
next
  case (Cons var variables)
  show ?case
  proof (cases k)
    case 0
    then show ?thesis unfolding dp_loop_Cons Let_def by simp
  next
    case (Suc j)
    with Cons.prems show ?thesis
      unfolding dp_loop_Cons Let_def using Cons.IH [of j]
      by (auto split: if_splits)
  qed
qed

text \<open>
  The invariant of the loop on an input without tautologies: no clause of the formula is a
  tautology, and every variable of the formula is still in the set.
\<close>

definition over_variables :: "clause list \<Rightarrow> int list \<Rightarrow> bool" where
  "over_variables formula variables =
     (\<forall>clause \<in> set formula. \<not> is_tautology (elements clause)
        \<and> (\<forall>literal \<in> set (elements clause). \<bar>literal\<bar> \<in> set variables))"

lemma resolve_elements:
  "resolve c1 c2 var = Some r \<Longrightarrow>
   \<not> is_tautology (elements r)
   \<and> set (elements r) = (set (elements c1) - {var}) \<union> (set (elements c2) - {- var})"
  by (auto simp: resolve_def Let_def split: if_splits)

lemma resolvents_mem:
  "r \<in> set (resolvents pos neg var) \<longleftrightarrow>
     (\<exists>c1 \<in> set pos. \<exists>c2 \<in> set neg. resolve c1 c2 var = Some r)"
  by (auto simp: resolvents_def set_map_filter_iff)

lemma abs_eq_var: "0 \<le> var \<Longrightarrow> \<bar>l\<bar> = var \<longleftrightarrow> l = var \<or> l = - var" for l var :: int
  by auto

lemma dp_round_invariant:
  assumes inv: "over_variables formula (var # variables)" and pos: "0 \<le> var"
  shows "over_variables
     (filter (\<lambda>clause. var \<notin> set (elements clause) \<and> - var \<notin> set (elements clause)) formula
      @ resolvents (filter (\<lambda>clause. var \<in> set (elements clause)) formula)
          (filter (\<lambda>clause. - var \<in> set (elements clause)) formula) var)
     variables"
  unfolding over_variables_def
proof (intro ballI conjI)
  fix clause
  assume "clause \<in> set (filter (\<lambda>clause. var \<notin> set (elements clause)
      \<and> - var \<notin> set (elements clause)) formula
      @ resolvents (filter (\<lambda>clause. var \<in> set (elements clause)) formula)
          (filter (\<lambda>clause. - var \<in> set (elements clause)) formula) var)"
  then consider
    (rest) "clause \<in> set formula" "var \<notin> set (elements clause)" "- var \<notin> set (elements clause)"
    | (new) c1 c2 where "c1 \<in> set formula" "var \<in> set (elements c1)"
        "c2 \<in> set formula" "- var \<in> set (elements c2)" "resolve c1 c2 var = Some clause"
    by (auto simp: resolvents_mem)
  then have "\<not> is_tautology (elements clause)
      \<and> (\<forall>literal \<in> set (elements clause). \<bar>literal\<bar> \<in> set variables)"
  proof cases
    case rest
    from inv rest(1) have nt: "\<not> is_tautology (elements clause)"
      and vs: "\<forall>literal \<in> set (elements clause). \<bar>literal\<bar> \<in> set (var # variables)"
      by (auto simp: over_variables_def)
    have "\<bar>literal\<bar> \<in> set variables" if "literal \<in> set (elements clause)" for literal
    proof -
      from that rest(2,3) have "literal \<noteq> var" "literal \<noteq> - var" by auto
      with pos have "\<bar>literal\<bar> \<noteq> var" by (simp add: abs_eq_var)
      with vs that show ?thesis by auto
    qed
    with nt show ?thesis by blast
  next
    case new
    from inv new(1,3) have nt1: "\<not> is_tautology (elements c1)" and nt2: "\<not> is_tautology (elements c2)"
      and vs1: "\<forall>literal \<in> set (elements c1). \<bar>literal\<bar> \<in> set (var # variables)"
      and vs2: "\<forall>literal \<in> set (elements c2). \<bar>literal\<bar> \<in> set (var # variables)"
      by (auto simp: over_variables_def)
    from nt1 new(2) have n1: "- var \<notin> set (elements c1)" by (auto simp: is_tautology_def)
    from nt2 new(4) have n2: "var \<notin> set (elements c2)" by (force simp: is_tautology_def)
    note r = resolve_elements [OF new(5)]
    have "\<bar>literal\<bar> \<in> set variables" if "literal \<in> set (elements clause)" for literal
    proof -
      from that r n1 n2 have "literal \<noteq> var" "literal \<noteq> - var"
        and "literal \<in> set (elements c1) \<or> literal \<in> set (elements c2)" by auto
      with pos vs1 vs2 show ?thesis by (auto simp: abs_eq_var)
    qed
    with r show ?thesis by blast
  qed
  then show "\<not> is_tautology (elements clause)"
    and "\<And>literal. literal \<in> set (elements clause) \<Longrightarrow> \<bar>literal\<bar> \<in> set variables"
    by auto
qed

lemma dp_loop_invariant:
  "over_variables formula variables \<Longrightarrow> \<forall>v \<in> set variables. 0 \<le> v \<Longrightarrow>
   round \<in> set (snd (dp_loop formula variables)) \<Longrightarrow>
   over_variables (formula_after round) (variables_left round)
   \<and> set (new_clauses round) \<subseteq> set (formula_after round)"
proof (induction variables arbitrary: formula)
  case Nil
  then show ?case by simp
next
  case (Cons var variables)
  let ?formula' = "filter (\<lambda>clause. var \<notin> set (elements clause)
      \<and> - var \<notin> set (elements clause)) formula
      @ resolvents (filter (\<lambda>clause. var \<in> set (elements clause)) formula)
          (filter (\<lambda>clause. - var \<in> set (elements clause)) formula) var"
  have inv': "over_variables ?formula' variables"
    using Cons.prems(1,2) by (intro dp_round_invariant) auto
  from Cons.prems(3) consider
    (first) "round = \<lparr>popped = var, variables_left = variables,
       new_clauses = resolvents (filter (\<lambda>clause. var \<in> set (elements clause)) formula)
          (filter (\<lambda>clause. - var \<in> set (elements clause)) formula) var,
       formula_after = ?formula'\<rparr>"
    | (later) "round \<in> set (snd (dp_loop ?formula' variables))"
    unfolding dp_loop_Cons Let_def by (auto split: if_splits)
  then show ?case
  proof cases
    case first
    with inv' show ?thesis by simp
  next
    case later
    with Cons.IH [OF inv' _ later] Cons.prems(2) show ?thesis by simp
  qed
qed

lemma variables_of_set:
  "set (variables_of formula) = abs ` (\<Union>clause \<in> set formula. set (elements clause))"
  by (auto simp: variables_of_def)

text \<open>
  Claim C7, as the code has it. Whatever the order in which \<open>pop\<close> hands out the
  variables, \<open>dp\<close> runs at most as many iterations as the input has distinct variables;
  the variable set is computed once, before the loop, and iteration \<open>k\<close> removes exactly
  its \<open>k\<close>-th element. On an input without tautological clauses no resolvent, and no
  clause of the formula an iteration builds, has a variable outside the remaining set. On
  an input with a tautological clause a resolvent can keep the variable just removed (an
  input is evaluated below), so that part needs the restriction.
\<close>

theorem dp_rounds_bound:
  assumes "distinct variables" and "set variables = set (variables_of formula)"
  shows "length (snd (dp_loop formula variables)) \<le> card (set (variables_of formula))
    \<and> (\<forall>k < length (snd (dp_loop formula variables)).
          popped (snd (dp_loop formula variables) ! k) = variables ! k
          \<and> variables_left (snd (dp_loop formula variables) ! k) = drop (Suc k) variables)
    \<and> ((\<forall>clause \<in> set formula. \<not> is_tautology (elements clause)) \<longrightarrow>
          (\<forall>round \<in> set (snd (dp_loop formula variables)).
             \<forall>clause \<in> set (new_clauses round) \<union> set (formula_after round).
               \<forall>literal \<in> set (elements clause). \<bar>literal\<bar> \<in> set (variables_left round)))"
proof (intro conjI allI impI ballI)
  have "length (snd (dp_loop formula variables)) \<le> length variables"
    by (rule dp_loop_length)
  also have "length variables = card (set variables)"
    using assms(1) by (simp add: distinct_card)
  finally show "length (snd (dp_loop formula variables)) \<le> card (set (variables_of formula))"
    by (simp add: assms(2))
next
  fix k assume "k < length (snd (dp_loop formula variables))"
  then show "popped (snd (dp_loop formula variables) ! k) = variables ! k"
    and "variables_left (snd (dp_loop formula variables) ! k) = drop (Suc k) variables"
    by (simp_all add: dp_loop_popped)
next
  fix round clause literal
  assume nt: "\<forall>clause \<in> set formula. \<not> is_tautology (elements clause)"
    and round: "round \<in> set (snd (dp_loop formula variables))"
    and clause: "clause \<in> set (new_clauses round) \<union> set (formula_after round)"
    and literal: "literal \<in> set (elements clause)"
  have inv: "over_variables formula variables"
    unfolding over_variables_def using nt assms(2) by (auto simp: variables_of_set)
  have pos: "\<forall>v \<in> set variables. 0 \<le> v"
    using assms(2) by (auto simp: variables_of_set)
  from dp_loop_invariant [OF inv pos round] clause
  have "over_variables (formula_after round) (variables_left round)"
    and "clause \<in> set (formula_after round)" by auto
  with literal show "\<bar>literal\<bar> \<in> set (variables_left round)"
    by (auto simp: over_variables_def)
qed

lemma dp_loop_example:
  "dp_loop [PySet [1, 2], PySet [- 1, 2], PySet [1, - 2]] [2, 1] =
     (True,
      [\<lparr>popped = 2, variables_left = [1], new_clauses = [PyList [1]],
         formula_after = [PyList [1]]\<rparr>,
       \<lparr>popped = 1, variables_left = [], new_clauses = [], formula_after = []\<rparr>])"
  by code_simp

theorem dp_rounds_bound_witness:
  "distinct [2, 1 :: int]
   \<and> set [2, 1] = set (variables_of [PySet [1, 2], PySet [- 1, 2], PySet [1, - 2]])
   \<and> list_all (\<lambda>clause. \<not> is_tautology (elements clause))
         [PySet [1, 2], PySet [- 1, 2], PySet [1, - 2]]
   \<and> length (snd (dp_loop [PySet [1, 2], PySet [- 1, 2], PySet [1, - 2]] [2, 1]))
         \<le> card (set (variables_of [PySet [1, 2], PySet [- 1, 2], PySet [1, - 2]]))
   \<and> popped (snd (dp_loop [PySet [1, 2], PySet [- 1, 2], PySet [1, - 2]] [2, 1]) ! 1) = [2, 1] ! 1
   \<and> variables_left (snd (dp_loop [PySet [1, 2], PySet [- 1, 2], PySet [1, - 2]] [2, 1]) ! 1)
         = drop (Suc 1) [2, 1]
   \<and> PyList [1] \<in> set (new_clauses
         (snd (dp_loop [PySet [1, 2], PySet [- 1, 2], PySet [1, - 2]] [2, 1]) ! 0))
   \<and> \<bar>1 :: int\<bar> \<in> set (variables_left
         (snd (dp_loop [PySet [1, 2], PySet [- 1, 2], PySet [1, - 2]] [2, 1]) ! 0))"
proof -
  let ?formula = "[PySet [1, 2], PySet [- 1, 2], PySet [1, - 2]]"
  let ?log = "snd (dp_loop ?formula [2, 1])"
  have d: "distinct [2, 1 :: int]" by simp
  have v: "set [2, 1] = set (variables_of ?formula)" by code_simp
  have nt: "list_all (\<lambda>clause. \<not> is_tautology (elements clause)) ?formula"
    by (simp add: is_tautology_def)
  note th = dp_rounds_bound [OF d v]
  from th have b: "length ?log \<le> card (set (variables_of ?formula))" by (rule conjunct1)
  from th have "\<forall>k < length ?log. popped (?log ! k) = [2, 1] ! k
      \<and> variables_left (?log ! k) = drop (Suc k) [2, 1]"
    by (elim conjE)
  moreover have "1 < length ?log" by (simp add: dp_loop_example)
  ultimately have p: "popped (?log ! 1) = [2, 1] ! 1"
    and l: "variables_left (?log ! 1) = drop (Suc 1) [2, 1]" by blast+
  have r: "?log ! 0 \<in> set ?log" and c: "PyList [1] \<in> set (new_clauses (?log ! 0))"
    by (simp_all add: dp_loop_example)
  from th nt have "\<forall>round \<in> set ?log.
      \<forall>clause \<in> set (new_clauses round) \<union> set (formula_after round).
        \<forall>literal \<in> set (elements clause). \<bar>literal\<bar> \<in> set (variables_left round)"
    by (simp add: list_all_iff)
  with r c have "\<forall>literal \<in> set (elements (PyList [1])). \<bar>literal\<bar> \<in> set (variables_left (?log ! 0))"
    by blast
  then have m: "\<bar>1 :: int\<bar> \<in> set (variables_left (?log ! 0))" by simp
  from d v nt b p l c m show ?thesis by (intro conjI)
qed

text \<open>
  Claim C7 as stated fails on the input \<open>[{1, -1}, {-1}]\<close>, which the parser builds from
  the lines \<open>1 -1 0\<close> and \<open>-1 0\<close>: the only iteration removes variable \<open>1\<close>, and
  \<open>resolve({1, -1}, {-1}, 1)\<close> is \<open>[-1]\<close>, a resolvent with variable \<open>1\<close> when no variable
  is left.
\<close>

theorem dp_resolvent_keeps_variable_counterexample:
  "parse_cnf_file [''1 -1 0'', ''-1 0''] True = [PySet [1, - 1], PySet [- 1]]
   \<and> rounds (dp_run [PySet [1, - 1], PySet [- 1]]) =
       [\<lparr>popped = 1, variables_left = [], new_clauses = [PyList [- 1]],
         formula_after = [PyList [- 1]]\<rparr>]
   \<and> \<bar>- 1 :: int\<bar> \<notin> set []"
  by code_simp

section \<open>The resolution engine (resolution.py)\<close>

text \<open>
  The engine turns every clause into a \<open>frozenset\<close> and keeps the known clauses in a
  \<open>set\<close>. A frozenset is given here by the list of its elements in iteration order, and
  a set of frozensets by the list of its members in iteration order (orders Python does
  not specify). Python compares frozensets by their elements, so membership in a set of
  frozensets is \<open>clause_mem\<close>, and \<open>set.add\<close> is \<open>set_add\<close>.
\<close>

definition clause_mem :: "int list \<Rightarrow> int list list \<Rightarrow> bool" where
  "clause_mem clause clauses = (\<exists>member \<in> set clauses. set member = set clause)"

definition set_add :: "int list list \<Rightarrow> int list \<Rightarrow> int list list" where
  "set_add clauses clause = (if clause_mem clause clauses then clauses else clauses @ [clause])"

text \<open>
  \<open>resolve_clauses(clause1, clause2)\<close>: for the first literal of \<open>clause1\<close> whose negation
  is in \<open>clause2\<close>, the union of both clauses without that literal and its negation, or
  \<open>None\<close> when that is a tautology; \<open>None\<close> as well when there is no such literal.
\<close>

definition resolve_clauses :: "int list \<Rightarrow> int list \<Rightarrow> int list option" where
  "resolve_clauses clause1 clause2 =
     (case find (\<lambda>literal. - literal \<in> set clause2) clause1 of
        None \<Rightarrow> None
      | Some literal \<Rightarrow>
          (let resolvent = filter (\<lambda>lit. lit \<noteq> literal \<and> lit \<noteq> - literal)
                             (clause1 @ filter (\<lambda>lit. lit \<notin> set clause1) clause2)
           in if \<exists>lit \<in> set resolvent. - lit \<in> set resolvent then None
              else Some resolvent))"

text \<open>
  The loop over \<open>j\<close> for one \<open>i\<close>, and the loop over \<open>i\<close>: \<open>clause_i\<close> against every
  later clause of \<open>clause_list\<close>. \<open>None\<close> stands for the \<open>return False\<close> at the first
  empty resolvent; otherwise the loops give \<open>new_resolvents\<close>.
\<close>

fun inner_loop :: "int list \<Rightarrow> int list list \<Rightarrow> int list list \<Rightarrow> int list list option" where
  "inner_loop clause_i [] new_resolvents = Some new_resolvents"
| "inner_loop clause_i (clause_j # later) new_resolvents =
     (case resolve_clauses clause_i clause_j of
        None \<Rightarrow> inner_loop clause_i later new_resolvents
      | Some resolvent \<Rightarrow>
          if resolvent = [] then None
          else inner_loop clause_i later (set_add new_resolvents resolvent))"

fun outer_loop :: "int list list \<Rightarrow> int list list \<Rightarrow> int list list option" where
  "outer_loop [] new_resolvents = Some new_resolvents"
| "outer_loop (clause_i # later) new_resolvents =
     (case inner_loop clause_i later new_resolvents of
        None \<Rightarrow> None
      | Some new_resolvents' \<Rightarrow> outer_loop later new_resolvents')"

text \<open>\<open>known_clauses.update(new_resolvents)\<close>.\<close>

definition set_update :: "int list list \<Rightarrow> int list list \<Rightarrow> int list list" where
  "set_update known_clauses new_resolvents = foldl set_add known_clauses new_resolvents"

text \<open>\<open>new_resolvents.issubset(known_clauses) or not new_resolvents\<close>.\<close>

definition nothing_new :: "int list list \<Rightarrow> int list list \<Rightarrow> bool" where
  "nothing_new new_resolvents known_clauses =
     ((\<forall>resolvent \<in> set new_resolvents. clause_mem resolvent known_clauses)
      \<or> new_resolvents = [])"

lemma set_add_sets: "set ` set (set_add clauses clause) = insert (set clause) (set ` set clauses)"
  by (auto simp: set_add_def clause_mem_def)

lemma set_update_sets:
  "set ` set (set_update known new) = set ` set known \<union> set ` set new"
  unfolding set_update_def
proof (induction new arbitrary: known)
  case Nil
  then show ?case by simp
next
  case (Cons r new)
  show ?case by (simp add: Cons.IH set_add_sets)
qed

lemma find_mem: "find P xs = Some x \<Longrightarrow> x \<in> set xs \<and> P x"
  by (induction xs) (auto split: if_splits)

lemma resolve_clauses_subset:
  "resolve_clauses c1 c2 = Some r \<Longrightarrow> set r \<subseteq> set c1 \<union> set c2"
  by (auto simp: resolve_clauses_def Let_def split: option.splits if_splits)

lemma inner_loop_subset:
  "inner_loop c later new = Some new' \<Longrightarrow> set c \<subseteq> L \<Longrightarrow> \<forall>d \<in> set later. set d \<subseteq> L \<Longrightarrow>
   \<forall>r \<in> set new. set r \<subseteq> L \<Longrightarrow> \<forall>r \<in> set new'. set r \<subseteq> L"
proof (induction later arbitrary: new)
  case Nil
  then show ?case by simp
next
  case (Cons d later)
  show ?case
  proof (cases "resolve_clauses c d")
    case None
    with Cons show ?thesis by simp
  next
    case (Some r)
    with Cons.prems(1) have ne: "r \<noteq> []"
      and step: "inner_loop c later (set_add new r) = Some new'"
      by (auto split: if_splits)
    have "set r \<subseteq> L"
      using resolve_clauses_subset [OF Some] Cons.prems(2,3) by auto
    then have "\<forall>x \<in> set (set_add new r). set x \<subseteq> L"
      using Cons.prems(4) by (auto simp: set_add_def)
    with Cons.IH [OF step Cons.prems(2)] Cons.prems(3) show ?thesis by simp
  qed
qed

lemma outer_loop_subset:
  "outer_loop known new = Some new' \<Longrightarrow> \<forall>d \<in> set known. set d \<subseteq> L \<Longrightarrow>
   \<forall>r \<in> set new. set r \<subseteq> L \<Longrightarrow> \<forall>r \<in> set new'. set r \<subseteq> L"
proof (induction known arbitrary: new)
  case Nil
  then show ?case by simp
next
  case (Cons c later)
  from Cons.prems(1) obtain mid where
    mid: "inner_loop c later new = Some mid" and rest: "outer_loop later mid = Some new'"
    by (cases "inner_loop c later new") simp_all
  from Cons.prems(2) have c: "set c \<subseteq> L" and later: "\<forall>d \<in> set later. set d \<subseteq> L"
    by simp_all
  have "\<forall>r \<in> set mid. set r \<subseteq> L"
    using mid c later Cons.prems(3) by (rule inner_loop_subset)
  with rest later show ?case by (rule Cons.IH)
qed

text \<open>
  The clauses over the literals of the known clauses that are not known yet: their number
  goes down at every iteration that does not return.
\<close>

definition resolution_measure :: "int list list \<Rightarrow> nat" where
  "resolution_measure known_clauses =
     card (Pow (\<Union> (set ` set known_clauses)) - set ` set known_clauses)"

lemma resolution_measure_decreases:
  assumes new: "outer_loop known [] = Some new" and more: "\<not> nothing_new new known"
  shows "resolution_measure (set_update known new) < resolution_measure known"
proof -
  define L where "L = \<Union> (set ` set known)"
  define K where "K = set ` set known"
  define N where "N = set ` set new"
  have kn: "\<forall>d \<in> set known. set d \<subseteq> L" unfolding L_def by blast
  have "\<forall>r \<in> set new. set r \<subseteq> L"
    by (rule outer_loop_subset [OF new kn]) simp
  then have N: "N \<subseteq> Pow L" unfolding N_def by blast
  have K: "K \<subseteq> Pow L" unfolding K_def L_def by blast
  have fin: "finite L" unfolding L_def by simp
  from more obtain r where r: "r \<in> set new" "\<not> clause_mem r known"
    unfolding nothing_new_def by blast
  from r(2) have out: "set r \<notin> K" unfolding K_def clause_mem_def by blast
  from r(1) have "set r \<in> N" unfolding N_def by blast
  with N have inL: "set r \<in> Pow L" and inN: "set r \<in> K \<union> N" by blast+
  have "Pow L - (K \<union> N) \<subseteq> Pow L - K" by blast
  moreover from out inL inN have "Pow L - (K \<union> N) \<noteq> Pow L - K" by blast
  ultimately have "Pow L - (K \<union> N) \<subset> Pow L - K" by (rule psubsetI)
  moreover have "finite (Pow L - K)" using fin by simp
  ultimately have less: "card (Pow L - (K \<union> N)) < card (Pow L - K)"
    by (rule psubset_card_mono [rotated])
  have sets: "set ` set (set_update known new) = K \<union> N"
    unfolding K_def N_def by (rule set_update_sets)
  have "\<Union> (K \<union> N) = L"
  proof
    show "\<Union> (K \<union> N) \<subseteq> L" using K N by blast
    show "L \<subseteq> \<Union> (K \<union> N)" unfolding L_def K_def by blast
  qed
  then have "resolution_measure (set_update known new) = card (Pow L - (K \<union> N))"
    unfolding resolution_measure_def sets by simp
  moreover have "resolution_measure known = card (Pow L - K)"
    unfolding resolution_measure_def L_def K_def by simp
  ultimately show ?thesis using less by simp
qed

text \<open>
  The \<open>while True\<close> loop, from the known clauses at the start of an iteration. It returns
  the answer together with the known-clause set at the start of every iteration it ran.
\<close>

function resolution_loop :: "int list list \<Rightarrow> bool \<times> int list list list" where
  "resolution_loop known_clauses =
     (case outer_loop known_clauses [] of
        None \<Rightarrow> (False, [known_clauses])
      | Some new_resolvents \<Rightarrow>
          if nothing_new new_resolvents known_clauses then (True, [known_clauses])
          else (case resolution_loop (set_update known_clauses new_resolvents) of
                  (answer, history) \<Rightarrow> (answer, known_clauses # history)))"
  by pat_completeness auto
termination
  by (relation "measure resolution_measure") (auto intro: resolution_measure_decreases)

declare resolution_loop.simps [simp del]

text \<open>
  \<open>set(frozenset(clause) for clause in clauses_set)\<close>: the known clauses before the first
  iteration.
\<close>

definition known_clauses_init :: "clause list \<Rightarrow> int list list" where
  "known_clauses_init clauses_set =
     foldl set_add [] (map (\<lambda>clause. remdups (elements clause)) clauses_set)"

text \<open>
  A call of \<open>resolution\<close>: what it returns, and the known-clause set at the start of
  every iteration.
\<close>

record resolution_outcome =
  answer :: bool
  known_history :: "int list list list"

definition resolution_run :: "clause list \<Rightarrow> resolution_outcome" where
  "resolution_run clauses_set =
     (let known_clauses = known_clauses_init clauses_set;
          (answer, history) = resolution_loop known_clauses
      in \<lparr>answer = answer, known_history = history\<rparr>)"

definition resolution :: "clause list \<Rightarrow> bool" where
  "resolution clauses_set = answer (resolution_run clauses_set)"

subsection \<open>The resolvent does not depend on the order of iteration\<close>

text \<open>
  As a set of literals, the result of \<open>resolve_clauses\<close> is the same whichever literal of
  \<open>clause1\<close> with its negation in \<open>clause2\<close> the loop meets first, in whatever order the
  two frozensets list their literals, and whichever of the two clauses comes first.
\<close>

lemma find_None_iff: "find P xs = None \<longleftrightarrow> \<not> (\<exists>x \<in> set xs. P x)"
  by (induction xs) auto

definition clash :: "int set \<Rightarrow> int set \<Rightarrow> int \<Rightarrow> bool" where
  "clash A B l = (l \<in> A \<and> - l \<in> B)"

definition tautological :: "int set \<Rightarrow> bool" where
  "tautological R = (\<exists>lit \<in> R. - lit \<in> R)"

lemma clash_independent:
  assumes "clash A B l" "clash A B l'"
  shows "(if tautological (A \<union> B - {l, - l}) then None else Some (A \<union> B - {l, - l})) =
         (if tautological (A \<union> B - {l', - l'}) then None else Some (A \<union> B - {l', - l'}))"
proof (cases "l' = l \<or> l' = - l")
  case True
  then have "{l', - l'} = {l, - l}" by auto
  then show ?thesis by simp
next
  case False
  then have "l' \<in> A \<union> B - {l, - l}" "- l' \<in> A \<union> B - {l, - l}"
    and "l \<in> A \<union> B - {l', - l'}" "- l \<in> A \<union> B - {l', - l'}"
    using assms by (auto simp: clash_def)
  then have "tautological (A \<union> B - {l, - l})" "tautological (A \<union> B - {l', - l'})"
    unfolding tautological_def by blast+
  then show ?thesis by simp
qed

lemma resolve_clauses_set:
  "map_option set (resolve_clauses c1 c2) =
     (case find (\<lambda>literal. - literal \<in> set c2) c1 of
        None \<Rightarrow> None
      | Some l \<Rightarrow> if tautological (set c1 \<union> set c2 - {l, - l}) then None
                  else Some (set c1 \<union> set c2 - {l, - l}))"
proof (cases "find (\<lambda>literal. - literal \<in> set c2) c1")
  case None
  then show ?thesis by (simp add: resolve_clauses_def)
next
  case (Some l)
  have "set (filter (\<lambda>lit. lit \<noteq> l \<and> lit \<noteq> - l) (c1 @ filter (\<lambda>lit. lit \<notin> set c1) c2))
      = set c1 \<union> set c2 - {l, - l}" by auto
  with Some show ?thesis
    by (simp add: resolve_clauses_def Let_def tautological_def del: set_filter set_append)
qed

lemma resolve_clauses_any:
  assumes "clash (set c1) (set c2) l"
  shows "map_option set (resolve_clauses c1 c2) =
     (if tautological (set c1 \<union> set c2 - {l, - l}) then None
      else Some (set c1 \<union> set c2 - {l, - l}))"
proof -
  from assms have "\<exists>x \<in> set c1. - x \<in> set c2" by (auto simp: clash_def)
  then obtain l' where f: "find (\<lambda>literal. - literal \<in> set c2) c1 = Some l'"
    using find_None_iff [of "\<lambda>literal. - literal \<in> set c2" c1] by (cases "find (\<lambda>literal. - literal \<in> set c2) c1") auto
  then have "clash (set c1) (set c2) l'"
    using find_mem [OF f] by (simp add: clash_def)
  from clash_independent [OF this assms] f show ?thesis
    by (simp add: resolve_clauses_set)
qed

lemma resolve_clauses_order:
  assumes "set c1 = set d1" "set c2 = set d2"
  shows "map_option set (resolve_clauses c1 c2) = map_option set (resolve_clauses d1 d2)"
    and "map_option set (resolve_clauses c1 c2) = map_option set (resolve_clauses d2 d1)"
proof -
  show "map_option set (resolve_clauses c1 c2) = map_option set (resolve_clauses d1 d2)"
  proof (cases "\<exists>l. clash (set c1) (set c2) l")
    case True
    then obtain l where l: "clash (set c1) (set c2) l" by blast
    then have "clash (set d1) (set d2) l" using assms by simp
    from resolve_clauses_any [OF l] resolve_clauses_any [OF this] assms show ?thesis by simp
  next
    case False
    then have "find (\<lambda>literal. - literal \<in> set c2) c1 = None"
      and "find (\<lambda>literal. - literal \<in> set d2) d1 = None"
      using assms by (auto simp: find_None_iff clash_def)
    then show ?thesis by (simp add: resolve_clauses_def)
  qed
  show "map_option set (resolve_clauses c1 c2) = map_option set (resolve_clauses d2 d1)"
  proof (cases "\<exists>l. clash (set c1) (set c2) l")
    case True
    then obtain l where l: "clash (set c1) (set c2) l" by blast
    then have l': "clash (set d2) (set d1) (- l)" using assms by (simp add: clash_def)
    have "set d2 \<union> set d1 - {- l, - (- l)} = set c1 \<union> set c2 - {l, - l}"
      using assms by auto
    with resolve_clauses_any [OF l] resolve_clauses_any [OF l'] show ?thesis by simp
  next
    case False
    then have "find (\<lambda>literal. - literal \<in> set c2) c1 = None"
      and "find (\<lambda>literal. - literal \<in> set d1) d2 = None"
      using assms by (auto simp: find_None_iff clash_def)
    then show ?thesis by (simp add: resolve_clauses_def)
  qed
qed

subsection \<open>Saturation: the known clauses only grow (claim C6)\<close>

text \<open>
  The pairs \<open>(clause_list[i], clause_list[j])\<close> with \<open>i < j\<close>, in the order of the two
  loops, and the resolvents an iteration can produce from them.
\<close>

fun pairs :: "'a list \<Rightarrow> ('a \<times> 'a) list" where
  "pairs [] = []"
| "pairs (x # xs) = map (Pair x) xs @ pairs xs"

definition pair_resolvents :: "int list list \<Rightarrow> int list list" where
  "pair_resolvents clause_list =
     List.map_filter (\<lambda>(clause1, clause2). resolve_clauses clause1 clause2) (pairs clause_list)"

lemma pair_resolvents_mem:
  "r \<in> set (pair_resolvents known) \<longleftrightarrow>
     (\<exists>c d. (c, d) \<in> set (pairs known) \<and> resolve_clauses c d = Some r)"
  by (force simp: pair_resolvents_def set_map_filter_iff)

lemma pair_resolvents_Cons:
  "set (pair_resolvents (c # later)) =
     {r. \<exists>d \<in> set later. resolve_clauses c d = Some r} \<union> set (pair_resolvents later)"
proof (intro set_eqI iffI)
  fix r assume "r \<in> set (pair_resolvents (c # later))"
  then obtain a b where "(a, b) \<in> set (pairs (c # later))" "resolve_clauses a b = Some r"
    by (auto simp: pair_resolvents_mem)
  then show "r \<in> {r. \<exists>d \<in> set later. resolve_clauses c d = Some r} \<union> set (pair_resolvents later)"
    by (auto simp: pair_resolvents_mem)
next
  fix r assume "r \<in> {r. \<exists>d \<in> set later. resolve_clauses c d = Some r} \<union> set (pair_resolvents later)"
  then consider d where "d \<in> set later" "resolve_clauses c d = Some r"
    | a b where "(a, b) \<in> set (pairs later)" "resolve_clauses a b = Some r"
    by (auto simp: pair_resolvents_mem)
  then show "r \<in> set (pair_resolvents (c # later))"
  proof cases
    case 1
    then have "(c, d) \<in> set (pairs (c # later))" by simp
    with 1(2) show ?thesis unfolding pair_resolvents_mem by blast
  next
    case 2
    then have "(a, b) \<in> set (pairs (c # later))" by simp
    with 2(2) show ?thesis unfolding pair_resolvents_mem by blast
  qed
qed

lemma inner_loop_None:
  "inner_loop c later new = None \<longleftrightarrow> (\<exists>d \<in> set later. resolve_clauses c d = Some [])"
proof (induction later arbitrary: new)
  case Nil
  then show ?case by simp
next
  case (Cons d later)
  show ?case
  proof (cases "resolve_clauses c d")
    case None
    then show ?thesis by (simp add: Cons.IH)
  next
    case (Some r)
    then show ?thesis by (cases "r = []") (simp_all add: Cons.IH)
  qed
qed

lemma inner_loop_Some:
  "inner_loop c later new = Some new' \<Longrightarrow>
   set ` set new' = set ` set new \<union> set ` {r. \<exists>d \<in> set later. resolve_clauses c d = Some r}"
proof (induction later arbitrary: new)
  case Nil
  then show ?case by simp
next
  case (Cons d later)
  show ?case
  proof (cases "resolve_clauses c d")
    case None
    with Cons.prems have "inner_loop c later new = Some new'" by simp
    from Cons.IH [OF this] None show ?thesis by auto
  next
    case (Some r)
    with Cons.prems have "inner_loop c later (set_add new r) = Some new'"
      by (simp split: if_splits)
    from Cons.IH [OF this] Some show ?thesis
      by (auto simp: set_add_sets)
  qed
qed

lemma outer_loop_None:
  "outer_loop known new = None \<longleftrightarrow> [] \<in> set (pair_resolvents known)"
proof (induction known arbitrary: new)
  case Nil
  then show ?case by (simp add: pair_resolvents_def)
next
  case (Cons c later)
  show ?case
  proof (cases "inner_loop c later new")
    case None
    then have "\<exists>d \<in> set later. resolve_clauses c d = Some []"
      by (simp add: inner_loop_None)
    then have "[] \<in> set (pair_resolvents (c # later))"
      by (auto simp: pair_resolvents_Cons)
    with None show ?thesis by simp
  next
    case (Some mid)
    then have "\<not> (\<exists>d \<in> set later. resolve_clauses c d = Some [])"
      using inner_loop_None [of c later new] by simp
    then have "[] \<in> set (pair_resolvents (c # later)) \<longleftrightarrow> [] \<in> set (pair_resolvents later)"
      by (auto simp: pair_resolvents_Cons)
    with Some show ?thesis by (simp add: Cons.IH)
  qed
qed

lemma outer_loop_Some:
  "outer_loop known new = Some new' \<Longrightarrow>
   set ` set new' = set ` set new \<union> set ` set (pair_resolvents known)"
proof (induction known arbitrary: new)
  case Nil
  then show ?case by (simp add: pair_resolvents_def)
next
  case (Cons c later)
  from Cons.prems obtain mid where
    mid: "inner_loop c later new = Some mid" and rest: "outer_loop later mid = Some new'"
    by (cases "inner_loop c later new") simp_all
  from Cons.IH [OF rest] inner_loop_Some [OF mid] show ?case
    by (simp add: pair_resolvents_Cons image_Un Un_assoc)
qed

text \<open>
  An iteration is at the fixpoint when none of its resolvents is empty and all of them are
  known.
\<close>

definition fixpoint :: "int list list \<Rightarrow> bool" where
  "fixpoint known_clauses =
     ([] \<notin> set (pair_resolvents known_clauses)
      \<and> (\<forall>resolvent \<in> set (pair_resolvents known_clauses). clause_mem resolvent known_clauses))"

lemma clause_mem_iff: "clause_mem r known \<longleftrightarrow> set r \<in> set ` set known"
  by (auto simp: clause_mem_def)

lemma nothing_new_iff:
  assumes "outer_loop known [] = Some new"
  shows "nothing_new new known \<longleftrightarrow> fixpoint known"
proof -
  have ne: "[] \<notin> set (pair_resolvents known)"
    using assms outer_loop_None [of known "[]"] by simp
  have "nothing_new new known \<longleftrightarrow> set ` set new \<subseteq> set ` set known"
    by (auto simp: nothing_new_def clause_mem_iff)
  also have "\<dots> \<longleftrightarrow> set ` set (pair_resolvents known) \<subseteq> set ` set known"
    using outer_loop_Some [OF assms] by simp
  also have "\<dots> \<longleftrightarrow> (\<forall>r \<in> set (pair_resolvents known). clause_mem r known)"
    by (auto simp: clause_mem_iff)
  finally show ?thesis using ne by (simp add: fixpoint_def)
qed

lemma resolution_loop_False:
  "outer_loop known [] = None \<Longrightarrow> resolution_loop known = (False, [known])"
  by (simp add: resolution_loop.simps)

lemma resolution_loop_True:
  "outer_loop known [] = Some new \<Longrightarrow> nothing_new new known \<Longrightarrow>
   resolution_loop known = (True, [known])"
  by (simp add: resolution_loop.simps)

lemma resolution_loop_step:
  "outer_loop known [] = Some new \<Longrightarrow> \<not> nothing_new new known \<Longrightarrow>
   resolution_loop known =
     (fst (resolution_loop (set_update known new)),
      known # snd (resolution_loop (set_update known new)))"
  by (simp add: resolution_loop.simps [of known] split: prod.splits)

lemma set_update_grows: "set known \<subseteq> set (set_update known new)"
  unfolding set_update_def
proof (induction new arbitrary: known)
  case Nil
  then show ?case by simp
next
  case (Cons r new)
  have "set known \<subseteq> set (set_add known r)" by (auto simp: set_add_def)
  also have "\<dots> \<subseteq> set (foldl set_add (set_add known r) new)" by (rule Cons.IH)
  finally show ?case by simp
qed

lemma resolution_loop_history:
  "snd (resolution_loop known) \<noteq> [] \<and> hd (snd (resolution_loop known)) = known
   \<and> sorted_wrt (\<lambda>earlier later. set earlier \<subseteq> set later) (snd (resolution_loop known))"
proof (induction known rule: resolution_loop.induct)
  case (1 known)
  show ?case
  proof (cases "outer_loop known []")
    case None
    then show ?thesis by (simp add: resolution_loop_False)
  next
    case (Some new)
    show ?thesis
    proof (cases "nothing_new new known")
      case True
      with Some show ?thesis by (simp add: resolution_loop_True)
    next
      case False
      let ?h = "snd (resolution_loop (set_update known new))"
      from "1.IH" [OF Some False] have ne: "?h \<noteq> []" and hd: "hd ?h = set_update known new"
        and sorted: "sorted_wrt (\<lambda>earlier later. set earlier \<subseteq> set later) ?h"
        by simp_all
      have "set known \<subseteq> set later" if "later \<in> set ?h" for later
      proof (cases "later = hd ?h")
        case True
        then show ?thesis using hd set_update_grows by simp
      next
        case False
        from ne have h: "?h = hd ?h # tl ?h" by simp
        with that False have "later \<in> set (tl ?h)" by (metis set_ConsD)
        with sorted h have "set (hd ?h) \<subseteq> set later"
          by (metis sorted_wrt.simps(2))
        with hd set_update_grows [of known new] show ?thesis by auto
      qed
      with sorted show ?thesis
        by (simp add: resolution_loop_step [OF Some False])
    qed
  qed
qed

lemma resolution_loop_answer:
  "fst (resolution_loop known) \<longleftrightarrow> (\<exists>k < length (snd (resolution_loop known)).
      fixpoint (snd (resolution_loop known) ! k))"
proof (induction known rule: resolution_loop.induct)
  case (1 known)
  show ?case
  proof (cases "outer_loop known []")
    case None
    then have "[] \<in> set (pair_resolvents known)" by (simp add: outer_loop_None)
    then have "\<not> fixpoint known" by (simp add: fixpoint_def)
    with None show ?thesis by (simp add: resolution_loop_False)
  next
    case (Some new)
    show ?thesis
    proof (cases "nothing_new new known")
      case True
      with Some have "fixpoint known" by (simp add: nothing_new_iff)
      with Some True show ?thesis by (simp add: resolution_loop_True)
    next
      case False
      with Some have nf: "\<not> fixpoint known" by (simp add: nothing_new_iff)
      let ?h = "snd (resolution_loop (set_update known new))"
      have "(\<exists>k < length (known # ?h). fixpoint ((known # ?h) ! k))
          \<longleftrightarrow> (\<exists>k < length ?h. fixpoint (?h ! k))"
      proof
        assume "\<exists>k < length (known # ?h). fixpoint ((known # ?h) ! k)"
        then obtain k where k: "k < length (known # ?h)" "fixpoint ((known # ?h) ! k)"
          by blast
        with nf obtain j where "k = Suc j" by (cases k) auto
        with k show "\<exists>k < length ?h. fixpoint (?h ! k)" by auto
      next
        assume "\<exists>k < length ?h. fixpoint (?h ! k)"
        then obtain k where "k < length ?h" "fixpoint (?h ! k)" by blast
        then have "Suc k < length (known # ?h)" "fixpoint ((known # ?h) ! Suc k)" by simp_all
        then show "\<exists>k < length (known # ?h). fixpoint ((known # ?h) ! k)" by blast
      qed
      with "1.IH" [OF Some False] show ?thesis
        by (simp add: resolution_loop_step [OF Some False])
    qed
  qed
qed

lemma inner_loop_no_empty:
  "inner_loop c later new = Some new' \<Longrightarrow> [] \<notin> set new \<Longrightarrow> [] \<notin> set new'"
proof (induction later arbitrary: new)
  case Nil
  then show ?case by simp
next
  case (Cons d later)
  show ?case
  proof (cases "resolve_clauses c d")
    case None
    with Cons show ?thesis by simp
  next
    case (Some r)
    with Cons.prems(1) have ne: "r \<noteq> []"
      and step: "inner_loop c later (set_add new r) = Some new'"
      by (auto split: if_splits)
    from ne Cons.prems(2) have "[] \<notin> set (set_add new r)" by (auto simp: set_add_def)
    with step show ?thesis by (rule Cons.IH)
  qed
qed

lemma outer_loop_no_empty:
  "outer_loop known new = Some new' \<Longrightarrow> [] \<notin> set new \<Longrightarrow> [] \<notin> set new'"
proof (induction known arbitrary: new)
  case Nil
  then show ?case by simp
next
  case (Cons c later)
  from Cons.prems(1) obtain mid where
    mid: "inner_loop c later new = Some mid" and rest: "outer_loop later mid = Some new'"
    by (cases "inner_loop c later new") simp_all
  from mid Cons.prems(2) have "[] \<notin> set mid" by (rule inner_loop_no_empty)
  with rest show ?case by (rule Cons.IH)
qed

lemma set_update_subset: "set (set_update known new) \<subseteq> set known \<union> set new"
  unfolding set_update_def
proof (induction new arbitrary: known)
  case Nil
  then show ?case by simp
next
  case (Cons r new)
  have "set (foldl set_add (set_add known r) new) \<subseteq> set (set_add known r) \<union> set new"
    by (rule Cons.IH)
  also have "\<dots> \<subseteq> set known \<union> set (r # new)" by (auto simp: set_add_def)
  finally show ?case by simp
qed

lemma resolution_loop_no_empty:
  "[] \<notin> set known \<Longrightarrow> K \<in> set (snd (resolution_loop known)) \<Longrightarrow> [] \<notin> set K"
proof (induction known rule: resolution_loop.induct)
  case (1 known)
  show ?case
  proof (cases "outer_loop known []")
    case None
    with "1.prems" show ?thesis by (simp add: resolution_loop_False)
  next
    case (Some new)
    show ?thesis
    proof (cases "nothing_new new known")
      case True
      with Some "1.prems" show ?thesis by (simp add: resolution_loop_True)
    next
      case False
      from Some have "[] \<notin> set new" by (rule outer_loop_no_empty) simp
      with "1.prems"(1) set_update_subset [of known new]
      have ne: "[] \<notin> set (set_update known new)" by auto
      from "1.prems"(2) have "K = known \<or> K \<in> set (snd (resolution_loop (set_update known new)))"
        by (simp add: resolution_loop_step [OF Some False])
      then show ?thesis
      proof
        assume "K = known"
        with "1.prems"(1) show ?thesis by simp
      next
        assume "K \<in> set (snd (resolution_loop (set_update known new)))"
        with "1.IH" [OF Some False ne] show ?thesis by simp
      qed
    qed
  qed
qed

lemma fixpoint_no_empty:
  assumes "[] \<notin> set K"
  shows "fixpoint K \<longleftrightarrow> (\<forall>r \<in> set (pair_resolvents K). clause_mem r K)"
proof -
  have "[] \<notin> set (pair_resolvents K)" if all: "\<forall>r \<in> set (pair_resolvents K). clause_mem r K"
  proof
    assume "[] \<in> set (pair_resolvents K)"
    with all have "clause_mem [] K" by blast
    then obtain member where "member \<in> set K" "set member = {}"
      by (auto simp: clause_mem_def)
    with assms show False by simp
  qed
  then show ?thesis by (auto simp: fixpoint_def)
qed

lemma known_clauses_init_set:
  "set (known_clauses_init clauses_set) \<subseteq> (\<lambda>clause. remdups (elements clause)) ` set clauses_set"
proof -
  have "set (foldl set_add acc xs) \<subseteq> set acc \<union> set xs" for acc xs
    using set_update_subset [of acc xs] by (simp add: set_update_def)
  from this [of "[]" "map (\<lambda>clause. remdups (elements clause)) clauses_set"]
  show ?thesis by (simp add: known_clauses_init_def)
qed

lemma resolution_run_fields:
  "answer (resolution_run clauses_set) = fst (resolution_loop (known_clauses_init clauses_set))"
  "known_history (resolution_run clauses_set) = snd (resolution_loop (known_clauses_init clauses_set))"
  by (simp_all add: resolution_run_def Let_def split: prod.splits)

text \<open>
  Claim C6, as the code has it. The known-clause set only grows from one iteration to the
  later ones. The loop returns SAT exactly when some iteration is at the fixpoint: none of
  its resolvents is empty and none is outside the known set. The first condition cannot be
  left out when the empty clause is among the known clauses (an input is evaluated
  below); it follows from the second one when the input has no empty clause.
\<close>

theorem resolution_saturation:
  "(\<forall>i j clause. i \<le> j \<and> j < length (known_history (resolution_run clauses_set))
       \<and> clause_mem clause (known_history (resolution_run clauses_set) ! i)
     \<longrightarrow> clause_mem clause (known_history (resolution_run clauses_set) ! j))
   \<and> (resolution clauses_set \<longleftrightarrow>
        (\<exists>k < length (known_history (resolution_run clauses_set)).
           fixpoint (known_history (resolution_run clauses_set) ! k)))
   \<and> ((\<forall>clause \<in> set clauses_set. elements clause \<noteq> []) \<longrightarrow>
        (resolution clauses_set \<longleftrightarrow>
          (\<exists>k < length (known_history (resolution_run clauses_set)).
             \<forall>resolvent \<in> set (pair_resolvents (known_history (resolution_run clauses_set) ! k)).
               clause_mem resolvent (known_history (resolution_run clauses_set) ! k))))"
proof (intro conjI allI impI)
  let ?h = "snd (resolution_loop (known_clauses_init clauses_set))"
  fix i j clause
  assume a: "i \<le> j \<and> j < length (known_history (resolution_run clauses_set))
       \<and> clause_mem clause (known_history (resolution_run clauses_set) ! i)"
  have sorted: "sorted_wrt (\<lambda>earlier later. set earlier \<subseteq> set later) ?h"
    using resolution_loop_history by blast
  have "set (?h ! i) \<subseteq> set (?h ! j)"
  proof (cases "i = j")
    case True
    then show ?thesis by simp
  next
    case False
    with a have "i < j" "j < length ?h" by (simp_all add: resolution_run_fields)
    with sorted show ?thesis by (simp add: sorted_wrt_iff_nth_less)
  qed
  with a show "clause_mem clause (known_history (resolution_run clauses_set) ! j)"
    by (auto simp: resolution_run_fields clause_mem_def)
next
  show "resolution clauses_set \<longleftrightarrow>
        (\<exists>k < length (known_history (resolution_run clauses_set)).
           fixpoint (known_history (resolution_run clauses_set) ! k))"
    unfolding resolution_def resolution_run_fields by (rule resolution_loop_answer)
next
  let ?h = "snd (resolution_loop (known_clauses_init clauses_set))"
  assume ne: "\<forall>clause \<in> set clauses_set. elements clause \<noteq> []"
  have "[] \<notin> set (known_clauses_init clauses_set)"
  proof
    assume "[] \<in> set (known_clauses_init clauses_set)"
    with known_clauses_init_set obtain clause where
      "clause \<in> set clauses_set" "remdups (elements clause) = []" by force
    with ne show False by simp
  qed
  then have "\<forall>K \<in> set ?h. [] \<notin> set K"
    using resolution_loop_no_empty by blast
  then have "fixpoint (?h ! k) \<longleftrightarrow> (\<forall>r \<in> set (pair_resolvents (?h ! k)). clause_mem r (?h ! k))"
    if "k < length ?h" for k
    using that by (intro fixpoint_no_empty) simp
  then have "(\<exists>k < length ?h. fixpoint (?h ! k)) \<longleftrightarrow>
      (\<exists>k < length ?h. \<forall>r \<in> set (pair_resolvents (?h ! k)). clause_mem r (?h ! k))"
    by blast
  then show "resolution clauses_set \<longleftrightarrow>
          (\<exists>k < length (known_history (resolution_run clauses_set)).
             \<forall>resolvent \<in> set (pair_resolvents (known_history (resolution_run clauses_set) ! k)).
               clause_mem resolvent (known_history (resolution_run clauses_set) ! k))"
    unfolding resolution_def resolution_run_fields
    using resolution_loop_answer [of "known_clauses_init clauses_set"] by simp
qed

lemma resolution_run_example:
  "resolution_run [PySet [1, 2], PySet [- 1, 2], PySet [1, - 2]] =
     \<lparr>answer = True,
      known_history = [[[1, 2], [- 1, 2], [1, - 2]], [[1, 2], [- 1, 2], [1, - 2], [2], [1]]]\<rparr>"
  by code_simp

theorem resolution_saturation_witness:
  "(0 :: nat) \<le> 1
   \<and> 1 < length (known_history (resolution_run [PySet [1, 2], PySet [- 1, 2], PySet [1, - 2]]))
   \<and> clause_mem [2, 1] (known_history (resolution_run [PySet [1, 2], PySet [- 1, 2], PySet [1, - 2]]) ! 0)
   \<and> clause_mem [2, 1] (known_history (resolution_run [PySet [1, 2], PySet [- 1, 2], PySet [1, - 2]]) ! 1)
   \<and> resolution [PySet [1, 2], PySet [- 1, 2], PySet [1, - 2]]
   \<and> (\<exists>k < length (known_history (resolution_run [PySet [1, 2], PySet [- 1, 2], PySet [1, - 2]])).
         fixpoint (known_history (resolution_run [PySet [1, 2], PySet [- 1, 2], PySet [1, - 2]]) ! k))
   \<and> list_all (\<lambda>clause. elements clause \<noteq> []) [PySet [1, 2], PySet [- 1, 2], PySet [1, - 2]]
   \<and> (\<exists>k < length (known_history (resolution_run [PySet [1, 2], PySet [- 1, 2], PySet [1, - 2]])).
         \<forall>resolvent \<in> set (pair_resolvents
             (known_history (resolution_run [PySet [1, 2], PySet [- 1, 2], PySet [1, - 2]]) ! k)).
           clause_mem resolvent
             (known_history (resolution_run [PySet [1, 2], PySet [- 1, 2], PySet [1, - 2]]) ! k))"
proof -
  let ?cs = "[PySet [1, 2], PySet [- 1, 2], PySet [1, - 2]]"
  let ?h = "known_history (resolution_run ?cs)"
  note th = resolution_saturation [of ?cs]
  have l: "1 < length ?h" by (simp add: resolution_run_example)
  have "clause_mem [2, 1] [[1, 2], [- 1, 2], [1, - 2]]" by code_simp
  then have m0: "clause_mem [2, 1] (?h ! 0)"
    by (simp add: resolution_run_example)
  from th have "\<forall>i j clause. i \<le> j \<and> j < length ?h \<and> clause_mem clause (?h ! i)
      \<longrightarrow> clause_mem clause (?h ! j)" by (rule conjunct1)
  then have "(0 :: nat) \<le> 1 \<and> 1 < length ?h \<and> clause_mem [2, 1] (?h ! 0)
      \<longrightarrow> clause_mem [2, 1] (?h ! 1)"
    by blast
  with l m0 have m1: "clause_mem [2, 1] (?h ! 1)" by simp
  have r: "resolution ?cs" by (simp add: resolution_def resolution_run_example)
  from th have "resolution ?cs \<longleftrightarrow> (\<exists>k < length ?h. fixpoint (?h ! k))"
    by (elim conjE)
  with r have f: "\<exists>k < length ?h. fixpoint (?h ! k)" by (rule iffD1 [rotated])
  have ne: "list_all (\<lambda>clause. elements clause \<noteq> []) ?cs" by simp
  then have ne': "\<forall>clause \<in> set ?cs. elements clause \<noteq> []" by (simp only: list_all_iff)
  from th have "(\<forall>clause \<in> set ?cs. elements clause \<noteq> []) \<longrightarrow>
        (resolution ?cs \<longleftrightarrow>
          (\<exists>k < length ?h. \<forall>resolvent \<in> set (pair_resolvents (?h ! k)).
               clause_mem resolvent (?h ! k)))"
    by (elim conjE)
  then have "resolution ?cs \<longleftrightarrow>
          (\<exists>k < length ?h. \<forall>resolvent \<in> set (pair_resolvents (?h ! k)).
               clause_mem resolvent (?h ! k))"
    using ne' by (rule mp)
  then have p: "\<exists>k < length ?h. \<forall>resolvent \<in> set (pair_resolvents (?h ! k)).
      clause_mem resolvent (?h ! k)" using r by (rule iffD1)
  have z: "(0 :: nat) \<le> 1" by simp
  from z l m0 m1 r f ne p show ?thesis by (intro conjI)
qed

text \<open>
  Claim C6 as stated fails on the input \<open>[[], [1], [-1]]\<close>: the first iteration produces
  one resolvent, the empty clause, which is a known clause. No resolvent is outside the
  known set, and the loop returns UNSAT, not SAT.
\<close>

theorem resolution_known_empty_counterexample:
  "known_history (resolution_run [PyList [], PyList [1], PyList [- 1]]) = [[[], [1], [- 1]]]
   \<and> pair_resolvents [[], [1], [- 1]] = [[]]
   \<and> clause_mem [] [[], [1], [- 1]]
   \<and> resolution [PyList [], PyList [1], PyList [- 1]] = False"
  by code_simp

section \<open>The three engines side by side\<close>

subsection \<open>Tautological input clauses in the resolution engine (claim C3)\<close>

text \<open>
  Claim C3 against the code. The lines \<open>1 -1 0\<close> and \<open>1 0\<close> parse to the formula
  \<open>[{1, -1}, {1}]\<close>, which the assignment \<open>[1]\<close> satisfies. The engine keeps the
  tautology \<open>{1, -1}\<close> among its known clauses, \<open>resolve_clauses\<close> removes both \<open>1\<close> and
  \<open>-1\<close> from the union of the two clauses, and the engine returns \<open>False\<close> (UNSAT), in
  whichever order the two clauses and their literals are visited.
\<close>

theorem resolution_tautology_unsound:
  "parse_cnf_file [''1 -1 0'', ''1 0''] True = [PySet [1, - 1], PySet [1]]
   \<and> known_clauses_init [PySet [1, - 1], PySet [1]] = [[1, - 1], [1]]
   \<and> is_tautology [1, - 1]
   \<and> resolve_clauses [1, - 1] [1] = Some []
   \<and> resolve_clauses [- 1, 1] [1] = Some []
   \<and> resolve_clauses [1] [1, - 1] = Some []
   \<and> resolution [PySet [1, - 1], PySet [1]] = False
   \<and> resolution [PySet [- 1, 1], PySet [1]] = False
   \<and> resolution [PySet [1], PySet [1, - 1]] = False
   \<and> satisfies [1] [[1, - 1], [1]]"
  by code_simp

subsection \<open>Agreement of the engines (claim C1)\<close>

text \<open>
  Claim C1 against the code: on the formula \<open>[{1, -1}, {1}]\<close> of the lines \<open>1 -1 0\<close> and
  \<open>1 0\<close>, which the assignment \<open>[1]\<close> satisfies, \<open>dp\<close> and \<open>dpll\<close> return SAT and
  \<open>resolution\<close> returns UNSAT.
\<close>

theorem engines_disagree:
  "dp [PySet [1, - 1], PySet [1]] = True
   \<and> dpll [[1, - 1], [1]] [] = (True, Some [1])
   \<and> resolution [PySet [1, - 1], PySet [1]] = False
   \<and> resolution [PySet [1], PySet [- 1, 1]] = False
   \<and> satisfies [1] [[1, - 1], [1]]"
  by code_simp

subsection \<open>Formulas with the empty clause (claim C2)\<close>

lemma simplify_empty_clause: "[] \<in> set clauses \<Longrightarrow> simplify clauses a = None"
proof (induction clauses)
  case Nil
  then show ?case by simp
next
  case (Cons c clauses)
  show ?case
  proof (cases "c = []")
    case True
    then show ?thesis by simp
  next
    case False
    with Cons.prems have "[] \<in> set clauses" by auto
    with Cons.IH have "simplify clauses a = None" by simp
    then show ?thesis by (simp add: Let_def)
  qed
qed

lemma dpll_empty_clause: "[] \<in> set clauses \<Longrightarrow> dpll clauses a = (False, None)"
  by (simp add: dpll_def dpll_run_conflict simplify_empty_clause)

text \<open>
  Claim C2 against the code: on the formula \<open>[[]]\<close>, whose only clause is empty, \<open>dp\<close>
  finds no variable and returns \<open>True\<close> without testing \<open>[] in formula\<close>, and
  \<open>resolution\<close> finds no pair of clauses to resolve and returns \<open>True\<close>; neither looks
  for an empty clause among the clauses it is given (\<open>resolution\<close> also returns \<open>True\<close> on
  \<open>[[], [1]]\<close>, \<open>dp\<close> on \<open>[set(), {1}]\<close>). Only \<open>dpll\<close> returns UNSAT, as it does on every
  formula with an empty clause, by the lemma above.
\<close>

theorem empty_clause_verdicts:
  "dp [PyList []] = True
   \<and> resolution [PyList []] = True
   \<and> resolution [PyList [], PyList [1]] = True
   \<and> dp [PySet [], PySet [1]] = True
   \<and> dp [PyList [], PyList [1]] = False
   \<and> dpll [[]] [] = (False, None)"
  by code_simp

subsection \<open>What a call changes in the objects it is given (claim C9)\<close>

lemma dpll_run_assignment_after:
  "prefix a (assignment_after (dpll_run clauses a))"
proof (induction clauses a rule: dpll_run_induct)
  case (conflict clauses a)
  then show ?case by (simp add: dpll_run_conflict)
next
  case (empty clauses a)
  then show ?case by (simp add: dpll_run_empty)
next
  case (unit_conflict clauses a cs1 a2 tr2)
  from unit_propagate_prefix [OF unit_conflict(3)] show ?case
    by (simp add: dpll_run_unit_conflict [OF unit_conflict(1-3)])
next
  case (pure_conflict clauses a cs1 cs2 a2 tr2)
  from unit_propagate_prefix [OF pure_conflict(3)] show ?case
    by (simp add: dpll_run_pure_conflict [OF pure_conflict(1-4)] prefix_prefix)
next
  case (no_literal clauses a cs1 cs2 a2 tr2 cs3)
  from unit_propagate_prefix [OF no_literal(3)] show ?case
    by (simp add: dpll_run_no_literal [OF no_literal(1-5)] prefix_prefix)
next
  case (branch clauses a cs1 cs2 a2 tr2 cs3 v a3)
  from unit_propagate_prefix [OF branch(3)] show ?case
    by (simp add: dpll_run_branch [OF branch(1-6) refl refl refl] branch(6) prefix_prefix)
qed

lemma dpll_run_assignment_exact:
  assumes "simplify clauses a = Some cs1" "cs1 \<noteq> []" "unit_propagate cs1 a [] = (r, a2, tr2)"
  shows "assignment_after (dpll_run clauses a) =
     (case r of None \<Rightarrow> a2 | Some cs2 \<Rightarrow> a2 @ find_pure_literals cs2)"
proof (cases r)
  case None
  with assms show ?thesis by (simp add: dpll_run_unit_conflict)
next
  case (Some cs2)
  with assms show ?thesis
    by (simp add: dpll_run.simps [of clauses a] Let_def split: option.splits)
qed

text \<open>
  Claim C9 as stated fails for the assignment list: a caller that passes the formula
  \<open>[[1]]\<close> and an empty list finds the list to be \<open>[1]\<close> after the call (it is the very
  list returned as the witness).
\<close>

theorem dpll_appends_to_argument_counterexample:
  "dpll [[1]] [] = (True, Some [1])
   \<and> assignment_after (dpll_run [[1]] []) = [1]
   \<and> [1 :: int] \<noteq> []"
  by code_simp

end
